theory Spec2Isabelle
  imports Main "HOL-Library.Word"
begin

section \<open>Data model of \<^verbatim>\<open>buffered_tree.c\<close>\<close>

text \<open>
  The program is a pointer structure: payloads are linked through \<^verbatim>\<open>next\<close>, containers
  point to their first payload and to a child node, nodes hold an array of container
  pointers and a pointer to their parent.  The model keeps that shape: every
  \<^verbatim>\<open>struct\<close> is a record, every object lives at an address of a store, a nullable
  pointer is an \<open>addr option\<close>, and every function of the source is a function on
  the state that returns an error where the C program would leave defined behaviour.
\<close>

type_synonym addr = nat
type_synonym u32 = "32 word"

datatype payload_type = Put | Del

record ('k, 'v) payload =
  key :: "'k option"
  val :: "'v option"
  type :: payload_type
  "next" :: "addr option"

record container =
  payload_first :: "addr option"
  payload_size :: u32
  child :: "addr option"

text \<open>
  \<open>containers\<close> is the malloc'ed array of container pointers: one cell per element of
  its capacity, \<open>None\<close> for a cell that was never written.
\<close>

record node =
  parent :: "addr option"
  containers :: "addr option list"
  container_count :: u32
  container_size :: u32

text \<open>
  Modelled from the spec: \<^verbatim>\<open>struct bftree_opts\<close> is declared in \<^verbatim>\<open>buffered_tree.h\<close>, which
  is not part of the sources.  The code uses three of its members: the comparator and
  the two optional destructors.  A destructor is either installed or the null pointer;
  what an installed destructor does is recorded by the state (the list of the pointers it
  was called with).
\<close>

record 'k bftree_opts =
  key_compare :: "'k \<Rightarrow> 'k \<Rightarrow> int"
  key_destructor :: bool
  val_destructor :: bool

record 'k bftree =
  root :: addr
  height :: u32
  opts :: "'k bftree_opts"
  is_migrated :: int
  del_payload_count :: u32
  put_payload_count :: u32

text \<open>
  Modelled from the spec: the macros of \<^verbatim>\<open>buffered_tree.h\<close> (the thresholds, the default
  capacity and the status code) are parameters of the model.
\<close>

record header =
  BFTREE_DEFAULT_CONTAINER :: u32
  BFTREE_CONTAINER_THRESHOLD :: u32
  BFTREE_PAYLOAD_THRESHOLD :: u32
  BF_OK :: int

datatype handler = PushToChild | SplitContainer | TrySplitNode | OrderContainerPayload

text \<open>
  The state: the tree handle, one store per object type, the next address \<^verbatim>\<open>malloc\<close>
  hands out (\<^verbatim>\<open>malloc\<close> is taken never to fail), the calls made to the two destructors,
  and \<open>entered\<close>, a ghost log with one entry for every call of an overflow handler.
\<close>

record ('k, 'v) state =
  tree :: "'k bftree"
  payload_mem :: "addr \<Rightarrow> ('k, 'v) payload option"
  container_mem :: "addr \<Rightarrow> container option"
  node_mem :: "addr \<Rightarrow> node option"
  brk :: addr
  key_destructed :: "'k list"
  val_destructed :: "'v list"
  entered :: "handler list"

text \<open>
  What the C program does outside defined behaviour, or does not finish doing, is an
  error of the model: a null or dangling pointer that is read through, an array index
  beyond the capacity, a cell or variable read before it is written, an \<^verbatim>\<open>int\<close> that
  overflows, an \<^verbatim>\<open>assert\<close> that fails, and a loop or recursion that runs out of fuel.
\<close>

datatype error =
  NullPointer | DanglingPointer | OutOfBounds | Uninitialised | SignedOverflow | AssertionFailed
  | OutOfFuel

definition bind :: "error + 'a \<Rightarrow> ('a \<Rightarrow> error + 'b) \<Rightarrow> error + 'b" where
  "bind m f = (case m of Inl e \<Rightarrow> Inl e | Inr x \<Rightarrow> f x)"

lemma bind_cong [fundef_cong]:
  "m = m' \<Longrightarrow> (\<And>x. m' = Inr x \<Longrightarrow> f x = f' x) \<Longrightarrow> bind m f = bind m' f'"
  by (cases m') (simp_all add: bind_def)

lemma bind_Inl [simp]: "bind (Inl e) f = Inl e"
  by (simp add: bind_def)

lemma bind_Inr [simp]: "bind (Inr x) f = f x"
  by (simp add: bind_def)

subsection \<open>Memory access\<close>

definition payload_at :: "('k, 'v) state \<Rightarrow> addr option \<Rightarrow> error + ('k, 'v) payload" where
  "payload_at s p =
     (case p of None \<Rightarrow> Inl NullPointer
      | Some a \<Rightarrow> (case payload_mem s a of None \<Rightarrow> Inl DanglingPointer | Some x \<Rightarrow> Inr x))"

definition container_at :: "('k, 'v) state \<Rightarrow> addr option \<Rightarrow> error + container" where
  "container_at s p =
     (case p of None \<Rightarrow> Inl NullPointer
      | Some a \<Rightarrow> (case container_mem s a of None \<Rightarrow> Inl DanglingPointer | Some x \<Rightarrow> Inr x))"

definition node_at :: "('k, 'v) state \<Rightarrow> addr option \<Rightarrow> error + node" where
  "node_at s p =
     (case p of None \<Rightarrow> Inl NullPointer
      | Some a \<Rightarrow> (case node_mem s a of None \<Rightarrow> Inl DanglingPointer | Some x \<Rightarrow> Inr x))"

definition payload_upd ::
  "('k, 'v) state \<Rightarrow> addr \<Rightarrow> (('k, 'v) payload \<Rightarrow> ('k, 'v) payload) \<Rightarrow> ('k, 'v) state" where
  "payload_upd s a f = s\<lparr>payload_mem := (payload_mem s)(a := map_option f (payload_mem s a))\<rparr>"

definition container_upd ::
  "('k, 'v) state \<Rightarrow> addr \<Rightarrow> (container \<Rightarrow> container) \<Rightarrow> ('k, 'v) state" where
  "container_upd s a f =
     s\<lparr>container_mem := (container_mem s)(a := map_option f (container_mem s a))\<rparr>"

definition node_upd :: "('k, 'v) state \<Rightarrow> addr \<Rightarrow> (node \<Rightarrow> node) \<Rightarrow> ('k, 'v) state" where
  "node_upd s a f = s\<lparr>node_mem := (node_mem s)(a := map_option f (node_mem s a))\<rparr>"

text \<open>The array of a node: reads and writes are checked against the capacity.\<close>

definition array_read :: "addr option list \<Rightarrow> u32 \<Rightarrow> error + addr" where
  "array_read cells i =
     (if unat i < length cells
      then (case cells ! unat i of None \<Rightarrow> Inl Uninitialised | Some c \<Rightarrow> Inr c)
      else Inl OutOfBounds)"

definition array_write :: "addr option list \<Rightarrow> u32 \<Rightarrow> addr \<Rightarrow> error + addr option list" where
  "array_write cells i c =
     (if unat i < length cells then Inr (cells[unat i := Some c]) else Inl OutOfBounds)"

definition memmove :: "addr option list \<Rightarrow> nat \<Rightarrow> nat \<Rightarrow> nat \<Rightarrow> error + addr option list" where
  "memmove cells dst src n =
     (if n = 0 then Inr cells
      else if src + n \<le> length cells \<and> dst + n \<le> length cells
      then Inr (take dst cells @ take n (drop src cells) @ drop (dst + n) cells)
      else Inl OutOfBounds)"

definition realloc :: "addr option list \<Rightarrow> nat \<Rightarrow> addr option list" where
  "realloc cells n = take n cells @ replicate (n - length cells) None"

text \<open>
  The comparator is handed two key pointers and reads the keys behind them (\<^verbatim>\<open>strcmp\<close>
  in the harness): a null pointer there is an error.
\<close>

definition compare_keys :: "('k \<Rightarrow> 'k \<Rightarrow> int) \<Rightarrow> 'k option \<Rightarrow> 'k option \<Rightarrow> error + int" where
  "compare_keys compare key1 key2 =
     (case key1 of None \<Rightarrow> Inl NullPointer
      | Some a \<Rightarrow> (case key2 of None \<Rightarrow> Inl NullPointer | Some b \<Rightarrow> Inr (compare a b)))"

section \<open>Payloads, containers, nodes\<close>

definition payload_create ::
  "('k, 'v) state \<Rightarrow> 'k option \<Rightarrow> 'v option \<Rightarrow> payload_type \<Rightarrow> addr \<times> ('k, 'v) state" where
  "payload_create s k v t =
     (let payload = brk s
      in (payload,
          s\<lparr>payload_mem := (payload_mem s)(payload \<mapsto> \<lparr>key = k, val = v, type = t, next = None\<rparr>),
            brk := Suc payload\<rparr>))"

definition payload_free :: "('k, 'v) state \<Rightarrow> addr \<Rightarrow> error + ('k, 'v) state" where
  "payload_free s payload =
     bind (payload_at s (Some payload)) (\<lambda>p.
       let s = (case key p of None \<Rightarrow> s
                | Some k \<Rightarrow> if key_destructor (opts (tree s))
                            then s\<lparr>key_destructed := key_destructed s @ [k]\<rparr> else s);
           s = (case val p of None \<Rightarrow> s
                | Some v \<Rightarrow> if val_destructor (opts (tree s))
                            then s\<lparr>val_destructed := val_destructed s @ [v]\<rparr> else s);
           s = (if type p = Put
                then s\<lparr>tree := (tree s)\<lparr>put_payload_count := put_payload_count (tree s) - 1\<rparr>\<rparr>
                else s\<lparr>tree := (tree s)\<lparr>del_payload_count := del_payload_count (tree s) - 1\<rparr>\<rparr>)
       in Inr (s\<lparr>payload_mem := (payload_mem s)(payload := None)\<rparr>))"

definition payload_replace :: "('k, 'v) state \<Rightarrow> addr \<Rightarrow> addr \<Rightarrow> error + ('k, 'v) state" where
  "payload_replace s older newer =
     bind (payload_at s (Some older)) (\<lambda>po.
     bind (payload_at s (Some newer)) (\<lambda>pn.
       let temp = val po;
           s = payload_upd s older (\<lambda>p. p\<lparr>val := val pn\<rparr>);
           s = payload_upd s newer (\<lambda>p. p\<lparr>val := temp\<rparr>);
           s = payload_upd s older (\<lambda>p. p\<lparr>type := type pn\<rparr>)
       in payload_free s newer))"

definition container_create :: "('k, 'v) state \<Rightarrow> addr \<times> ('k, 'v) state" where
  "container_create s =
     (let container = brk s
      in (container,
          s\<lparr>container_mem := (container_mem s)
               (container \<mapsto> \<lparr>payload_first = None, payload_size = 0, child = None\<rparr>),
            brk := Suc container\<rparr>))"

fun container_free_loop :: "nat \<Rightarrow> ('k, 'v) state \<Rightarrow> addr option \<Rightarrow> error + ('k, 'v) state" where
  "container_free_loop fuel s None = Inr s"
| "container_free_loop 0 s (Some c) = Inl OutOfFuel"
| "container_free_loop (Suc fuel) s (Some c) =
     bind (payload_at s (Some c)) (\<lambda>p.
     bind (payload_free s c) (\<lambda>s.
       container_free_loop fuel s (next p)))"

definition container_free :: "nat \<Rightarrow> ('k, 'v) state \<Rightarrow> addr \<Rightarrow> error + ('k, 'v) state" where
  "container_free fuel s container =
     bind (container_at s (Some container)) (\<lambda>c.
     bind (container_free_loop fuel s (payload_first c)) (\<lambda>s.
       Inr (s\<lparr>container_mem := (container_mem s)(container := None)\<rparr>)))"

definition insert_after_container ::
  "('k, 'v) state \<Rightarrow> addr \<Rightarrow> addr \<Rightarrow> u32 \<Rightarrow> error + ('k, 'v) state" where
  "insert_after_container s node container container_idx =
     bind (node_at s (Some node)) (\<lambda>nd.
       let nd = (if container_size nd = container_count nd
                 then nd\<lparr>containers := realloc (containers nd) (2 * unat (container_count nd)),
                        container_count := container_count nd * 2\<rparr>
                 else nd)
       in if container_size nd = 0
          then bind (array_write (containers nd) (container_size nd) container) (\<lambda>cells.
                 Inr (s\<lparr>node_mem := (node_mem s)
                        (node \<mapsto> nd\<lparr>containers := cells, container_size := container_size nd + 1\<rparr>)\<rparr>))
          else bind (memmove (containers nd) (unat (container_idx + 2)) (unat (container_idx + 1))
                       (unat (container_size nd - container_idx - 1))) (\<lambda>cells.
               bind (array_write cells (container_idx + 1) container) (\<lambda>cells.
                 Inr (s\<lparr>node_mem := (node_mem s)
                        (node \<mapsto> nd\<lparr>containers := cells, container_size := container_size nd + 1\<rparr>)\<rparr>))))"

definition node_create ::
  "header \<Rightarrow> ('k, 'v) state \<Rightarrow> addr option \<Rightarrow> addr \<times> ('k, 'v) state" where
  "node_create hdr s parent_node =
     (let node = brk s
      in (node,
          s\<lparr>node_mem := (node_mem s)
               (node \<mapsto> \<lparr>parent = parent_node,
                          containers = replicate (unat (BFTREE_DEFAULT_CONTAINER hdr)) None,
                          container_count = BFTREE_DEFAULT_CONTAINER hdr,
                          container_size = 0\<rparr>),
            brk := Suc node\<rparr>))"

lemma unat_inc: "(i :: u32) < n \<Longrightarrow> unat (i + 1) = Suc (unat i)"
proof -
  assume "i < n"
  then have "unat i < unat n"
    by (simp add: word_less_nat_alt)
  moreover have "unat n < 2 ^ 32"
    using unsigned_less [of n] by simp
  ultimately have "unat i + 1 < 2 ^ 32"
    by linarith
  then show ?thesis
    by (simp add: unat_word_ariths)
qed

text \<open>
  The loops over the containers of a node count in an \<^verbatim>\<open>int i\<close> and compare it with the
  \<^verbatim>\<open>uint32_t\<close> size of the node, which converts \<^verbatim>\<open>i\<close> to unsigned.  The model holds \<^verbatim>\<open>i\<close>
  as the 32-bit word of its value (two's complement), so the comparison is the one of
  words; \<^verbatim>\<open>i++\<close> at \<^verbatim>\<open>INT_MAX\<close> and \<^verbatim>\<open>i - 1\<close> at \<^verbatim>\<open>INT_MIN\<close> overflow, and an array read at
  a negative \<^verbatim>\<open>i\<close> is out of bounds.
\<close>

definition increment :: "u32 \<Rightarrow> error + u32" where
  "increment i = (if i = 0x7FFFFFFF then Inl SignedOverflow else Inr (i + 1))"

definition decrement :: "u32 \<Rightarrow> error + u32" where
  "decrement i = (if i = 0x80000000 then Inl SignedOverflow else Inr (i - 1))"

definition array_read_int :: "addr option list \<Rightarrow> u32 \<Rightarrow> error + addr" where
  "array_read_int cells i = (if 0x7FFFFFFF < i then Inl OutOfBounds else array_read cells i)"

text \<open>
  The loop of \<^verbatim>\<open>node_free\<close>.  Freeing a container does not touch the node, so the node
  is read once; the index runs up to \<^verbatim>\<open>container_size\<close>.
\<close>

function node_free_loop ::
  "nat \<Rightarrow> ('k, 'v) state \<Rightarrow> node \<Rightarrow> u32 \<Rightarrow> error + ('k, 'v) state" where
  "node_free_loop fuel s nd i =
     (if i < container_size nd
      then bind (array_read_int (containers nd) i) (\<lambda>container.
           bind (container_free fuel s container) (\<lambda>s.
           bind (increment i) (\<lambda>i.
             node_free_loop fuel s nd i)))
      else Inr s)"
  by pat_completeness auto
termination
  by (relation "measure (\<lambda>(fuel, s, nd, i). unat (container_size nd) - unat i)")
    (auto simp: increment_def unat_inc word_less_nat_alt split: if_splits)

declare node_free_loop.simps [simp del]

definition node_free :: "nat \<Rightarrow> ('k, 'v) state \<Rightarrow> addr \<Rightarrow> error + ('k, 'v) state" where
  "node_free fuel s node =
     bind (node_at s (Some node)) (\<lambda>nd.
     bind (node_free_loop fuel s nd 0) (\<lambda>s.
       Inr (s\<lparr>node_mem := (node_mem s)(node := None)\<rparr>)))"

definition remove_container ::
  "('k, 'v) state \<Rightarrow> addr \<Rightarrow> u32 \<Rightarrow> error + addr \<times> ('k, 'v) state" where
  "remove_container s node idx =
     bind (node_at s (Some node)) (\<lambda>nd.
     bind (array_read (containers nd) idx) (\<lambda>removed.
     bind (memmove (containers nd) (unat idx) (unat (idx + 1))
             (unat (container_size nd - idx - 1))) (\<lambda>cells.
       Inr (removed,
            s\<lparr>node_mem := (node_mem s)
                 (node \<mapsto> nd\<lparr>containers := cells, container_size := container_size nd - 1\<rparr>)\<rparr>))))"

section \<open>Lookup inside a node and inside a chain\<close>

text \<open>
  \<^verbatim>\<open>find_container\<close>: the loop index is an \<^verbatim>\<open>int\<close> that starts at the \<^verbatim>\<open>uint32_t\<close> start
  index (a start index above \<^verbatim>\<open>INT_MAX\<close> becomes a negative \<^verbatim>\<open>int\<close> with the same
  bits), is compared with the \<^verbatim>\<open>uint32_t\<close> size, and is returned as a \<^verbatim>\<open>uint32_t\<close>, less one
  unless it is 0.  The loop does not write, so the node is read once.
\<close>

function find_container_loop ::
  "('k, 'v) state \<Rightarrow> ('k \<Rightarrow> 'k \<Rightarrow> int) \<Rightarrow> node \<Rightarrow> 'k option \<Rightarrow> u32 \<Rightarrow> error + u32" where
  "find_container_loop s compare nd k i =
     (if i < container_size nd
      then bind (array_read_int (containers nd) i) (\<lambda>container.
           bind (container_at s (Some container)) (\<lambda>c.
           bind (payload_at s (payload_first c)) (\<lambda>first.
           bind (compare_keys compare k (key first)) (\<lambda>compared.
             if compared < 0 then Inr i
             else bind (increment i) (\<lambda>i. find_container_loop s compare nd k i)))))
      else Inr i)"
  by pat_completeness auto
termination
  by (relation "measure (\<lambda>(s, compare, nd, k, i). unat (container_size nd) - unat i)")
    (auto simp: increment_def unat_inc word_less_nat_alt split: if_splits)

declare find_container_loop.simps [simp del]

definition find_container ::
  "('k, 'v) state \<Rightarrow> ('k \<Rightarrow> 'k \<Rightarrow> int) \<Rightarrow> addr \<Rightarrow> 'k option \<Rightarrow> u32 \<Rightarrow> error + u32" where
  "find_container s compare node k start_container =
     bind (node_at s (Some node)) (\<lambda>nd.
     bind (find_container_loop s compare nd k start_container) (\<lambda>i.
       if i = 0 then Inr 0 else decrement i))"

text \<open>
  \<^verbatim>\<open>get_payload\<close> walks a chain; a chain in an arbitrary store may be cyclic, so the walk
  takes fuel: one unit for each payload it visits.
\<close>

fun get_payload_loop ::
  "nat \<Rightarrow> ('k, 'v) state \<Rightarrow> ('k \<Rightarrow> 'k \<Rightarrow> int) \<Rightarrow> 'k option \<Rightarrow> addr option \<Rightarrow> addr option
     \<Rightarrow> error + addr option \<times> bool" where
  "get_payload_loop fuel s compare k None prev_payload = Inr (prev_payload, False)"
| "get_payload_loop 0 s compare k (Some c) prev_payload = Inl OutOfFuel"
| "get_payload_loop (Suc fuel) s compare k (Some c) prev_payload =
     bind (payload_at s (Some c)) (\<lambda>p.
     bind (compare_keys compare k (key p)) (\<lambda>compared.
       if compared \<le> 0
       then (if compared = 0 then Inr (Some c, True) else Inr (prev_payload, False))
       else get_payload_loop fuel s compare k (next p) (Some c)))"

definition get_payload ::
  "nat \<Rightarrow> ('k, 'v) state \<Rightarrow> ('k \<Rightarrow> 'k \<Rightarrow> int) \<Rightarrow> addr option \<Rightarrow> 'k option
     \<Rightarrow> error + addr option \<times> bool" where
  "get_payload fuel s compare payload_start k =
     get_payload_loop fuel s compare k payload_start None"

definition non_null :: "'a option \<Rightarrow> error + 'a" where
  "non_null p = (case p of None \<Rightarrow> Inl NullPointer | Some a \<Rightarrow> Inr a)"

fun container_get ::
  "nat \<Rightarrow> ('k, 'v) state \<Rightarrow> addr \<Rightarrow> u32 \<Rightarrow> 'k option \<Rightarrow> error + addr option" where
  "container_get 0 s node container_idx k = Inl OutOfFuel"
| "container_get (Suc fuel) s node container_idx k =
     bind (node_at s (Some node)) (\<lambda>nd.
       if container_idx \<ge> container_size nd then Inr None
       else
         bind (array_read (containers nd) container_idx) (\<lambda>container.
         bind (container_at s (Some container)) (\<lambda>c.
         bind (get_payload (Suc fuel) s (key_compare (opts (tree s))) (payload_first c) k)
           (\<lambda>(curr_payload, is_equal).
             if is_equal
             then bind (payload_at s curr_payload) (\<lambda>p.
                    if type p = Put then Inr curr_payload else Inr None)
             else (case child c of
                     Some ch \<Rightarrow>
                       bind (find_container s (key_compare (opts (tree s))) ch k 0) (\<lambda>idx.
                         container_get fuel s ch idx k)
                   | None \<Rightarrow> Inr None)))))"

section \<open>Insertion and the overflow handlers\<close>

definition enter :: "handler \<Rightarrow> ('k, 'v) state \<Rightarrow> ('k, 'v) state" where
  "enter h s = s\<lparr>entered := entered s @ [h]\<rparr>"

text \<open>The loop \<^verbatim>\<open>while (prev->next != separator) prev = prev->next\<close>.\<close>

fun find_prev ::
  "nat \<Rightarrow> ('k, 'v) state \<Rightarrow> addr option \<Rightarrow> addr option \<Rightarrow> error + addr option" where
  "find_prev 0 s prev separator = Inl OutOfFuel"
| "find_prev (Suc fuel) s prev separator =
     bind (payload_at s prev) (\<lambda>p.
       if next p \<noteq> separator then find_prev fuel s (next p) separator else Inr prev)"

text \<open>The loop \<^verbatim>\<open>for (i = 0; i < half_count - 1; ++i) payload = payload->next\<close>.\<close>

fun advance ::
  "nat \<Rightarrow> ('k, 'v) state \<Rightarrow> addr option \<Rightarrow> u32 \<Rightarrow> u32 \<Rightarrow> error + addr option" where
  "advance 0 s payload i n = Inl OutOfFuel"
| "advance (Suc fuel) s payload i n =
     (if i < n then bind (payload_at s payload) (\<lambda>p. advance fuel s (next p) (i + 1) n)
      else Inr payload)"

text \<open>The loop of \<^verbatim>\<open>try_split_node\<close> that moves the containers behind the middle one.\<close>

fun move_containers ::
  "nat \<Rightarrow> ('k, 'v) state \<Rightarrow> addr \<Rightarrow> addr \<Rightarrow> u32 \<Rightarrow> u32 \<Rightarrow> error + u32 \<times> ('k, 'v) state" where
  "move_containers 0 s node new_node middle_container_idx i = Inl OutOfFuel"
| "move_containers (Suc fuel) s node new_node middle_container_idx i =
     bind (node_at s (Some node)) (\<lambda>nd.
       if i < container_size nd
       then bind (array_read_int (containers nd) i) (\<lambda>container.
            bind (insert_after_container s new_node container (i - middle_container_idx - 2)) (\<lambda>s.
            bind (increment i) (\<lambda>i.
              move_containers fuel s node new_node middle_container_idx i)))
       else Inr (i, s))"

text \<open>
  \<^verbatim>\<open>container_insert\<close> and the handlers it may call are mutually recursive, and
  nothing bounds their recursion in an arbitrary store: each call takes one unit of fuel.
  The body of each function is a definition of its own that takes the functions it
  calls as arguments; the recursive definition below passes them in, with the remaining
  fuel.
\<close>

definition container_insert_body ::
  "(('k, 'v) state \<Rightarrow> addr \<Rightarrow> addr \<Rightarrow> error + ('k, 'v) state)
     \<Rightarrow> (('k, 'v) state \<Rightarrow> addr \<Rightarrow> u32 \<Rightarrow> error + ('k, 'v) state)
     \<Rightarrow> nat \<Rightarrow> header \<Rightarrow> ('k, 'v) state \<Rightarrow> addr \<Rightarrow> u32 \<Rightarrow> addr
     \<Rightarrow> error + addr \<times> ('k, 'v) state" where
  "container_insert_body push_to_child split_container fuel hdr s node container_idx new_payload =
     bind (node_at s (Some node)) (\<lambda>nd.
     bind (if container_idx \<ge> container_size nd
           then (let (target, s) = container_create s
                 in bind (insert_after_container s node target 0) (\<lambda>s. Inr (target, s)))
           else bind (array_read (containers nd) container_idx) (\<lambda>target. Inr (target, s)))
       (\<lambda>(target, s).
     bind (container_at s (Some target)) (\<lambda>c.
     bind (payload_at s (Some new_payload)) (\<lambda>np.
     bind (get_payload fuel s (key_compare (opts (tree s))) (payload_first c) (key np))
       (\<lambda>(cur_payload, is_equal).
     bind (if is_equal
           then bind (non_null cur_payload) (\<lambda>older. payload_replace s older new_payload)
           else
             (case cur_payload of
                Some prev \<Rightarrow>
                  bind (payload_at s (Some prev)) (\<lambda>pp.
                    let s = payload_upd s new_payload (\<lambda>p. p\<lparr>next := next pp\<rparr>);
                        s = payload_upd s prev (\<lambda>p. p\<lparr>next := Some new_payload\<rparr>)
                    in Inr (container_upd s target (\<lambda>c. c\<lparr>payload_size := payload_size c + 1\<rparr>)))
              | None \<Rightarrow>
                  (let s = payload_upd s new_payload (\<lambda>p. p\<lparr>next := payload_first c\<rparr>);
                       s = container_upd s target (\<lambda>c. c\<lparr>payload_first := Some new_payload\<rparr>)
                   in Inr (container_upd s target (\<lambda>c. c\<lparr>payload_size := payload_size c + 1\<rparr>)))))
       (\<lambda>s.
     bind (container_at s (Some target)) (\<lambda>c.
       if payload_size c > BFTREE_PAYLOAD_THRESHOLD hdr \<and> is_migrated (tree s) \<noteq> 0
       then bind (if child c \<noteq> None then push_to_child s node target
                  else split_container s node container_idx) (\<lambda>s. Inr (target, s))
       else Inr (target, s))))))))"

text \<open>
  \<open>skip_delete\<close> is the local variable of \<^verbatim>\<open>push_to_child\<close>, which the source
  assigns only when the tree holds more Del than Put payloads: \<open>None\<close> is the
  indeterminate value it has otherwise, and reading it is an error.
\<close>

definition push_to_child_body ::
  "(('k, 'v) state \<Rightarrow> addr \<Rightarrow> addr option \<Rightarrow> u32 \<Rightarrow> u32 \<Rightarrow> int option \<Rightarrow> error + ('k, 'v) state)
     \<Rightarrow> ('k, 'v) state \<Rightarrow> addr \<Rightarrow> addr \<Rightarrow> error + ('k, 'v) state" where
  "push_to_child_body push_to_child_loop s node container =
     (let s = enter PushToChild s in
      bind (container_at s (Some container)) (\<lambda>c.
      bind (payload_at s (payload_first c)) (\<lambda>first.
        let cur_payload = next first;
            child_container = 0;
            push_count = payload_size c div 2;
            s = container_upd s container (\<lambda>c. c\<lparr>payload_size := payload_size c - push_count\<rparr>);
            skip_delete = (if del_payload_count (tree s) > put_payload_count (tree s)
                           then Some 1 else None)
        in push_to_child_loop s container cur_payload child_container push_count skip_delete)))"

text \<open>One test of \<^verbatim>\<open>while (push_count--)\<close> and, when it holds, one run of the loop body.\<close>

definition push_to_child_loop_body ::
  "(('k, 'v) state \<Rightarrow> addr \<Rightarrow> u32 \<Rightarrow> addr \<Rightarrow> error + addr \<times> ('k, 'v) state)
     \<Rightarrow> (('k, 'v) state \<Rightarrow> addr \<Rightarrow> addr option \<Rightarrow> u32 \<Rightarrow> u32 \<Rightarrow> int option \<Rightarrow> error + ('k, 'v) state)
     \<Rightarrow> ('k, 'v) state \<Rightarrow> addr \<Rightarrow> addr option \<Rightarrow> u32 \<Rightarrow> u32 \<Rightarrow> int option
     \<Rightarrow> error + ('k, 'v) state" where
  "push_to_child_loop_body container_insert push_to_child_loop s container cur_payload
       child_container push_count skip_delete =
     (if push_count = 0 then Inr s
      else
        let push_count = push_count - 1 in
        bind (payload_at s cur_payload) (\<lambda>cp.
        bind (non_null cur_payload) (\<lambda>cur.
          let next_payload = next cp in
        bind (container_at s (Some container)) (\<lambda>c.
        bind (payload_at s (payload_first c)) (\<lambda>first.
        bind (non_null (payload_first c)) (\<lambda>head.
          let s = payload_upd s head (\<lambda>p. p\<lparr>next := next_payload\<rparr>) in
        bind (payload_at s (Some cur)) (\<lambda>cp.
        bind (if type cp = Del
              then (case skip_delete of None \<Rightarrow> Inl Uninitialised | Some b \<Rightarrow> Inr (b \<noteq> 0))
              else Inr False) (\<lambda>skip.
          if skip
          then bind (payload_free s cur) (\<lambda>s.
                 push_to_child_loop s container cur_payload child_container push_count skip_delete)
          else
            bind (container_at s (Some container)) (\<lambda>c.
            bind (non_null (child c)) (\<lambda>ch.
            bind (find_container s (key_compare (opts (tree s))) ch (key cp) child_container)
              (\<lambda>child_container.
            bind (container_insert s ch child_container cur) (\<lambda>(target, s).
              push_to_child_loop s container next_payload child_container push_count
                skip_delete))))))))))))"

definition order_container_payload_body ::
  "(('k, 'v) state \<Rightarrow> addr \<Rightarrow> addr \<Rightarrow> u32 \<Rightarrow> addr option \<Rightarrow> error + ('k, 'v) state)
     \<Rightarrow> nat \<Rightarrow> ('k, 'v) state \<Rightarrow> addr \<Rightarrow> u32 \<Rightarrow> u32 \<Rightarrow> error + ('k, 'v) state" where
  "order_container_payload_body order_container_payload_loop fuel s node migrated_idx import_idx =
     (let s = enter OrderContainerPayload s in
      bind (node_at s (Some node)) (\<lambda>nd.
      bind (array_read (containers nd) migrated_idx) (\<lambda>left.
      bind (array_read (containers nd) import_idx) (\<lambda>right.
      bind (container_at s (Some left)) (\<lambda>lc.
      bind (container_at s (Some right)) (\<lambda>rc.
      bind (payload_at s (payload_first rc)) (\<lambda>rfirst.
      bind (get_payload fuel s (key_compare (opts (tree s))) (payload_first lc) (key rfirst))
        (\<lambda>(separator, is_equal).
      bind (if is_equal
            then bind (find_prev fuel s (payload_first lc) separator) (\<lambda>prev.
                 bind (non_null (payload_first rc)) (\<lambda>older.
                 bind (non_null separator) (\<lambda>newer.
                 bind (payload_replace s older newer) (\<lambda>s.
                   Inr (prev,
                        container_upd s left (\<lambda>c. c\<lparr>payload_size := payload_size c - 1\<rparr>))))))
            else Inr (separator, s)) (\<lambda>(separator, s).
        case separator of
          None \<Rightarrow> Inr s
        | Some sep \<Rightarrow>
            bind (payload_at s (Some sep)) (\<lambda>sp.
              let s = payload_upd s sep (\<lambda>p. p\<lparr>next := None\<rparr>);
                  s = s\<lparr>tree := (tree s)\<lparr>is_migrated := 1\<rparr>\<rparr>
              in bind (order_container_payload_loop s node left import_idx (next sp))
                   (\<lambda>s. Inr (s\<lparr>tree := (tree s)\<lparr>is_migrated := 0\<rparr>\<rparr>))))))))))))"

text \<open>
  One test of \<^verbatim>\<open>while (curr)\<close> and one run of its body.  The source reads
  \<^verbatim>\<open>curr->next\<close> after \<^verbatim>\<open>container_insert\<close> has linked (or released) the payload.
\<close>

definition order_container_payload_loop_body ::
  "(('k, 'v) state \<Rightarrow> addr \<Rightarrow> u32 \<Rightarrow> addr \<Rightarrow> error + addr \<times> ('k, 'v) state)
     \<Rightarrow> (('k, 'v) state \<Rightarrow> addr \<Rightarrow> addr \<Rightarrow> u32 \<Rightarrow> addr option \<Rightarrow> error + ('k, 'v) state)
     \<Rightarrow> ('k, 'v) state \<Rightarrow> addr \<Rightarrow> addr \<Rightarrow> u32 \<Rightarrow> addr option \<Rightarrow> error + ('k, 'v) state" where
  "order_container_payload_loop_body container_insert order_container_payload_loop s node left
       import_idx cur_payload =
     (case cur_payload of
        None \<Rightarrow> Inr s
      | Some cur \<Rightarrow>
          (let s = container_upd s left (\<lambda>c. c\<lparr>payload_size := payload_size c - 1\<rparr>) in
           bind (container_insert s node import_idx cur) (\<lambda>(target, s).
           bind (payload_at s (Some cur)) (\<lambda>cp.
             order_container_payload_loop s node left import_idx (next cp)))))"

definition try_split_node_body ::
  "(('k, 'v) state \<Rightarrow> addr \<Rightarrow> u32 \<Rightarrow> u32 \<Rightarrow> error + ('k, 'v) state)
     \<Rightarrow> (('k, 'v) state \<Rightarrow> addr \<Rightarrow> error + ('k, 'v) state)
     \<Rightarrow> nat \<Rightarrow> header \<Rightarrow> ('k, 'v) state \<Rightarrow> addr \<Rightarrow> error + ('k, 'v) state" where
  "try_split_node_body order_container_payload try_split_node fuel hdr s node =
     (let s = enter TrySplitNode s in
      bind (node_at s (Some node)) (\<lambda>nd.
        if container_size nd < BFTREE_CONTAINER_THRESHOLD hdr then Inr s
        else
          let middle_container_idx = container_size nd div 2;
              (new_node, s) = node_create hdr s (parent nd)
          in
          bind (array_read (containers nd) middle_container_idx) (\<lambda>new_node_first_container.
          bind (container_at s (Some new_node_first_container)) (\<lambda>fc.
            let s = container_upd s new_node_first_container (\<lambda>c. c\<lparr>child := Some new_node\<rparr>) in
          bind (move_containers fuel s node new_node middle_container_idx
                  (middle_container_idx + 1)) (\<lambda>(i, s).
            let s = node_upd s node
                      (\<lambda>n. n\<lparr>container_size := container_size n - (i - middle_container_idx)\<rparr>)
            in
            if node = root (tree s)
            then
              let (new_root, s) = node_create hdr s None;
                  s = s\<lparr>tree := (tree s)\<lparr>root := new_root, height := height (tree s) + 1\<rparr>\<rparr>;
                  s = node_upd s node (\<lambda>n. n\<lparr>parent := Some new_root\<rparr>);
                  s = node_upd s new_node (\<lambda>n. n\<lparr>parent := Some new_root\<rparr>)
              in
              bind (remove_container s node 0) (\<lambda>(container, s).
              bind (container_at s (Some container)) (\<lambda>rc.
                let s = container_upd s container (\<lambda>c. c\<lparr>child := Some node\<rparr>) in
              bind (insert_after_container s new_root container 0) (\<lambda>s.
                insert_after_container s new_root new_node_first_container 0)))
            else
              bind (node_at s (Some node)) (\<lambda>nd.
              bind (non_null (parent nd)) (\<lambda>parent_node.
              bind (container_at s (Some new_node_first_container)) (\<lambda>fc.
              bind (payload_at s (payload_first fc)) (\<lambda>first.
              bind (find_container s (key_compare (opts (tree s))) parent_node (key first) 0)
                (\<lambda>parent_container_idx.
              bind (insert_after_container s parent_node new_node_first_container
                      parent_container_idx) (\<lambda>s.
              bind (order_container_payload s parent_node parent_container_idx
                      (parent_container_idx + 1)) (\<lambda>s.
              bind (node_at s (Some node)) (\<lambda>nd.
              bind (non_null (parent nd)) (\<lambda>parent_node.
                try_split_node s parent_node))))))))))))))"

definition split_container_body ::
  "(('k, 'v) state \<Rightarrow> addr \<Rightarrow> error + ('k, 'v) state)
     \<Rightarrow> nat \<Rightarrow> ('k, 'v) state \<Rightarrow> addr \<Rightarrow> u32 \<Rightarrow> error + ('k, 'v) state" where
  "split_container_body try_split_node fuel s node container_idx =
     (let s = enter SplitContainer s;
          (new_container, s) = container_create s
      in
      bind (insert_after_container s node new_container container_idx) (\<lambda>s.
      bind (node_at s (Some node)) (\<lambda>nd.
      bind (array_read (containers nd) container_idx) (\<lambda>target.
      bind (container_at s (Some target)) (\<lambda>tc.
        let half_count = payload_size tc div 2 in
      bind (advance fuel s (payload_first tc) 0 (half_count - 1)) (\<lambda>payload.
      bind (payload_at s payload) (\<lambda>p.
      bind (non_null payload) (\<lambda>last_kept.
        let s = container_upd s new_container (\<lambda>c. c\<lparr>payload_first := next p\<rparr>);
            s = payload_upd s last_kept (\<lambda>p. p\<lparr>next := None\<rparr>);
            s = container_upd s new_container
                  (\<lambda>c. c\<lparr>payload_size := payload_size tc - half_count\<rparr>);
            s = container_upd s target (\<lambda>c. c\<lparr>payload_size := half_count\<rparr>)
        in try_split_node s node))))))))"

function (sequential) container_insert ::
      "nat \<Rightarrow> header \<Rightarrow> ('k, 'v) state \<Rightarrow> addr \<Rightarrow> u32 \<Rightarrow> addr \<Rightarrow> error + addr \<times> ('k, 'v) state"
  and push_to_child ::
      "nat \<Rightarrow> header \<Rightarrow> ('k, 'v) state \<Rightarrow> addr \<Rightarrow> addr \<Rightarrow> error + ('k, 'v) state"
  and push_to_child_loop ::
      "nat \<Rightarrow> header \<Rightarrow> ('k, 'v) state \<Rightarrow> addr \<Rightarrow> addr option \<Rightarrow> u32 \<Rightarrow> u32 \<Rightarrow> int option
         \<Rightarrow> error + ('k, 'v) state"
  and order_container_payload ::
      "nat \<Rightarrow> header \<Rightarrow> ('k, 'v) state \<Rightarrow> addr \<Rightarrow> u32 \<Rightarrow> u32 \<Rightarrow> error + ('k, 'v) state"
  and order_container_payload_loop ::
      "nat \<Rightarrow> header \<Rightarrow> ('k, 'v) state \<Rightarrow> addr \<Rightarrow> addr \<Rightarrow> u32 \<Rightarrow> addr option
         \<Rightarrow> error + ('k, 'v) state"
  and try_split_node ::
      "nat \<Rightarrow> header \<Rightarrow> ('k, 'v) state \<Rightarrow> addr \<Rightarrow> error + ('k, 'v) state"
  and split_container ::
      "nat \<Rightarrow> header \<Rightarrow> ('k, 'v) state \<Rightarrow> addr \<Rightarrow> u32 \<Rightarrow> error + ('k, 'v) state"
where
  "container_insert 0 hdr s node container_idx new_payload = Inl OutOfFuel"
| "container_insert (Suc fuel) hdr s node container_idx new_payload =
     container_insert_body (push_to_child fuel hdr) (split_container fuel hdr)
       (Suc fuel) hdr s node container_idx new_payload"
| "push_to_child 0 hdr s node container = Inl OutOfFuel"
| "push_to_child (Suc fuel) hdr s node container =
     push_to_child_body (push_to_child_loop fuel hdr) s node container"
| "push_to_child_loop 0 hdr s container cur_payload child_container push_count skip_delete =
     Inl OutOfFuel"
| "push_to_child_loop (Suc fuel) hdr s container cur_payload child_container push_count
       skip_delete =
     push_to_child_loop_body (container_insert fuel hdr) (push_to_child_loop fuel hdr)
       s container cur_payload child_container push_count skip_delete"
| "order_container_payload 0 hdr s node migrated_idx import_idx = Inl OutOfFuel"
| "order_container_payload (Suc fuel) hdr s node migrated_idx import_idx =
     order_container_payload_body (order_container_payload_loop fuel hdr) (Suc fuel)
       s node migrated_idx import_idx"
| "order_container_payload_loop 0 hdr s node left import_idx cur_payload = Inl OutOfFuel"
| "order_container_payload_loop (Suc fuel) hdr s node left import_idx cur_payload =
     order_container_payload_loop_body (container_insert fuel hdr)
       (order_container_payload_loop fuel hdr) s node left import_idx cur_payload"
| "try_split_node 0 hdr s node = Inl OutOfFuel"
| "try_split_node (Suc fuel) hdr s node =
     try_split_node_body (order_container_payload fuel hdr) (try_split_node fuel hdr)
       (Suc fuel) hdr s node"
| "split_container 0 hdr s node container_idx = Inl OutOfFuel"
| "split_container (Suc fuel) hdr s node container_idx =
     split_container_body (try_split_node fuel hdr) (Suc fuel) s node container_idx"

  by pat_completeness auto
termination
  by (relation "measure (case_sum (case_sum fst (case_sum fst fst))
                           (case_sum (case_sum fst fst) (case_sum fst fst)))")
    simp_all

section \<open>The public operations\<close>

definition bftree_create :: "header \<Rightarrow> 'k bftree_opts \<Rightarrow> ('k, 'v) state" where
  "bftree_create hdr options =
     (let s = \<lparr>tree = \<lparr>root = 0, height = 0, opts = options, is_migrated = 0,
                        del_payload_count = 0, put_payload_count = 0\<rparr>,
                payload_mem = Map.empty, container_mem = Map.empty, node_mem = Map.empty,
                brk = 0, key_destructed = [], val_destructed = [], entered = []\<rparr>;
          (root_node, s) = node_create hdr s None
      in s\<lparr>tree := \<lparr>root = root_node, height = 1, opts = options, is_migrated = 0,
                      del_payload_count = 0, put_payload_count = 0\<rparr>\<rparr>)"

text \<open>
  A key handed to \<^verbatim>\<open>bftree_put\<close>, \<^verbatim>\<open>bftree_del\<close> or \<^verbatim>\<open>bftree_get\<close> is a pointer to a key (the
  comparator reads it), so it is a \<open>'k\<close>; the value handed to \<^verbatim>\<open>bftree_put\<close> is any
  pointer, null included, so it is a \<open>'v option\<close>.
\<close>

definition bftree_put ::
  "nat \<Rightarrow> header \<Rightarrow> ('k, 'v) state \<Rightarrow> 'k \<Rightarrow> 'v option \<Rightarrow> error + int \<times> ('k, 'v) state" where
  "bftree_put fuel hdr s k v =
     (let (new_payload, s) = payload_create s (Some k) v Put in
      bind (payload_at s (Some new_payload)) (\<lambda>np.
      bind (find_container s (key_compare (opts (tree s))) (root (tree s)) (key np) 0) (\<lambda>idx.
      bind (container_insert fuel hdr s (root (tree s)) idx new_payload) (\<lambda>(target, s).
        Inr (BF_OK hdr, s)))))"

definition bftree_get :: "nat \<Rightarrow> ('k, 'v) state \<Rightarrow> 'k \<Rightarrow> error + 'v option" where
  "bftree_get fuel s k =
     bind (find_container s (key_compare (opts (tree s))) (root (tree s)) (Some k) 0) (\<lambda>idx.
     bind (container_get fuel s (root (tree s)) idx (Some k)) (\<lambda>r.
       case r of
         Some a \<Rightarrow> bind (payload_at s (Some a)) (\<lambda>p. Inr (val p))
       | None \<Rightarrow> Inr None))"

definition bftree_del ::
  "nat \<Rightarrow> header \<Rightarrow> ('k, 'v) state \<Rightarrow> 'k \<Rightarrow> error + int \<times> ('k, 'v) state" where
  "bftree_del fuel hdr s k =
     (let (new_payload, s) = payload_create s (Some k) None Del in
      bind (payload_at s (Some new_payload)) (\<lambda>np.
      bind (find_container s (key_compare (opts (tree s))) (root (tree s)) (key np) 0) (\<lambda>idx.
      bind (container_insert fuel hdr s (root (tree s)) idx new_payload) (\<lambda>(target, s).
        Inr (BF_OK hdr, s)))))"

fun bftree_free_node :: "nat \<Rightarrow> ('k, 'v) state \<Rightarrow> addr \<Rightarrow> error + ('k, 'v) state"
  and bftree_free_children :: "nat \<Rightarrow> ('k, 'v) state \<Rightarrow> addr \<Rightarrow> u32 \<Rightarrow> error + ('k, 'v) state"
where
  "bftree_free_node 0 s node = Inl OutOfFuel"
| "bftree_free_node (Suc fuel) s node =
     bind (bftree_free_children fuel s node 0) (\<lambda>s. node_free (Suc fuel) s node)"
| "bftree_free_children 0 s node i = Inl OutOfFuel"
| "bftree_free_children (Suc fuel) s node i =
     bind (node_at s (Some node)) (\<lambda>nd.
       if i < container_size nd
       then bind (array_read_int (containers nd) i) (\<lambda>container.
            bind (container_at s (Some container)) (\<lambda>c.
            bind (case child c of Some ch \<Rightarrow> bftree_free_node fuel s ch | None \<Rightarrow> Inr s) (\<lambda>s.
            bind (increment i) (\<lambda>i.
              bftree_free_children fuel s node i))))
       else Inr s)"

definition bftree_free :: "nat \<Rightarrow> ('k, 'v) state \<Rightarrow> error + ('k, 'v) state" where
  "bftree_free fuel s = bftree_free_node fuel s (root (tree s))"

text \<open>A caller: a sequence of public operations, run one after the other.\<close>

datatype ('k, 'v) operation = PutOp 'k "'v option" | DelOp 'k | GetOp 'k

fun apply_operation ::
  "nat \<Rightarrow> header \<Rightarrow> ('k, 'v) state \<Rightarrow> ('k, 'v) operation \<Rightarrow> error + ('k, 'v) state" where
  "apply_operation fuel hdr s (PutOp k v) = bind (bftree_put fuel hdr s k v) (\<lambda>(r, s). Inr s)"
| "apply_operation fuel hdr s (DelOp k) = bind (bftree_del fuel hdr s k) (\<lambda>(r, s). Inr s)"
| "apply_operation fuel hdr s (GetOp k) = bind (bftree_get fuel s k) (\<lambda>r. Inr s)"

fun run ::
  "nat \<Rightarrow> header \<Rightarrow> ('k, 'v) state \<Rightarrow> ('k, 'v) operation list \<Rightarrow> error + ('k, 'v) state" where
  "run fuel hdr s [] = Inr s"
| "run fuel hdr s (x # xs) = bind (apply_operation fuel hdr s x) (\<lambda>s. run fuel hdr s xs)"

section \<open>Debug area\<close>

text \<open>
  \<^verbatim>\<open>validate_containers\<close> asserts, for one node, that every chain is strictly increasing
  and that the first keys of adjacent containers are strictly increasing; it reads
  \<^verbatim>\<open>payload_first->next\<close> of every container, so an empty container is a null pointer
  read.
\<close>

fun validate_chain ::
  "nat \<Rightarrow> ('k, 'v) state \<Rightarrow> ('k \<Rightarrow> 'k \<Rightarrow> int) \<Rightarrow> addr option \<Rightarrow> addr option \<Rightarrow> error + unit" where
  "validate_chain fuel s compare prev None = Inr ()"
| "validate_chain 0 s compare prev (Some c) = Inl OutOfFuel"
| "validate_chain (Suc fuel) s compare prev (Some c) =
     bind (payload_at s prev) (\<lambda>pp.
     bind (payload_at s (Some c)) (\<lambda>cp.
     bind (compare_keys compare (key pp) (key cp)) (\<lambda>compared.
       if compared < 0 then validate_chain fuel s compare (Some c) (next cp)
       else Inl AssertionFailed)))"

function validate_containers_loop ::
  "nat \<Rightarrow> ('k, 'v) state \<Rightarrow> ('k \<Rightarrow> 'k \<Rightarrow> int) \<Rightarrow> node \<Rightarrow> u32 \<Rightarrow> error + unit" where
  "validate_containers_loop fuel s compare nd i =
     (if i < container_size nd
      then bind (array_read_int (containers nd) i) (\<lambda>container.
           bind (container_at s (Some container)) (\<lambda>c.
           bind (payload_at s (payload_first c)) (\<lambda>first.
           bind (validate_chain fuel s compare (payload_first c) (next first)) (\<lambda>u.
           bind (if i = 0 then Inr ()
                 else bind (decrement i) (\<lambda>j.
                      bind (array_read_int (containers nd) j) (\<lambda>left.
                      bind (container_at s (Some left)) (\<lambda>lc.
                      bind (payload_at s (payload_first lc)) (\<lambda>lfirst.
                      bind (compare_keys compare (key lfirst) (key first)) (\<lambda>compared.
                        if compared < 0 then Inr () else Inl AssertionFailed)))))) (\<lambda>u.
           bind (increment i) (\<lambda>i.
             validate_containers_loop fuel s compare nd i))))))
      else Inr ())"
  by pat_completeness auto
termination
  by (relation "measure (\<lambda>(fuel, s, compare, nd, i). unat (container_size nd) - unat i)")
    (auto simp: increment_def unat_inc word_less_nat_alt split: if_splits)

declare validate_containers_loop.simps [simp del]

definition validate_containers ::
  "nat \<Rightarrow> ('k, 'v) state \<Rightarrow> addr \<Rightarrow> ('k \<Rightarrow> 'k \<Rightarrow> int) \<Rightarrow> error + unit" where
  "validate_containers fuel s node compare =
     bind (node_at s (Some node)) (\<lambda>nd. validate_containers_loop fuel s compare nd 0)"

section \<open>The harness\<close>

text \<open>
  \<^verbatim>\<open>main\<close> hands the tree \<^verbatim>\<open>compare\<close>, which is \<^verbatim>\<open>strcmp\<close>.  The C standard fixes the
  sign of \<^verbatim>\<open>strcmp\<close> only (the bytes are compared as \<^verbatim>\<open>unsigned char\<close>); the model
  returns \<open>-1\<close>, \<open>0\<close> or \<open>1\<close>.  \<open>hdr0\<close> and \<open>opts0\<close> are one choice of the header's
  constants and an options block with both destructors installed, for the concrete
  runs below.
\<close>

fun strcmp :: "string \<Rightarrow> string \<Rightarrow> int" where
  "strcmp [] [] = 0"
| "strcmp [] (y # ys) = - 1"
| "strcmp (x # xs) [] = 1"
| "strcmp (x # xs) (y # ys) =
     (if x = y then strcmp xs ys
      else if (of_char x :: nat) < of_char y then - 1 else 1)"

definition compare :: "string \<Rightarrow> string \<Rightarrow> int" where
  "compare key1 key2 = strcmp key1 key2"

definition hdr0 :: header where
  "hdr0 = \<lparr>BFTREE_DEFAULT_CONTAINER = 4, BFTREE_CONTAINER_THRESHOLD = 8,
            BFTREE_PAYLOAD_THRESHOLD = 4, BF_OK = 0\<rparr>"

definition opts0 :: "string bftree_opts" where
  "opts0 = \<lparr>key_compare = compare, key_destructor = True, val_destructor = True\<rparr>"

definition push_state :: "(string, string) state" where
  "push_state =
     \<lparr>tree = \<lparr>root = 0, height = 2, opts = opts0, is_migrated = 1,
              del_payload_count = 0, put_payload_count = 0\<rparr>,
      payload_mem = [1 \<mapsto> \<lparr>key = Some ''a'', val = Some ''1'', type = Put, next = Some 2\<rparr>,
                     2 \<mapsto> \<lparr>key = Some ''b'', val = None, type = Del, next = None\<rparr>],
      container_mem = [3 \<mapsto> \<lparr>payload_first = Some 1, payload_size = 2, child = Some 4\<rparr>],
      node_mem = [0 \<mapsto> \<lparr>parent = None, containers = [Some 3, None, None, None],
                          container_count = 4, container_size = 1\<rparr>,
                  4 \<mapsto> \<lparr>parent = Some 0, containers = [None, None, None, None],
                          container_count = 4, container_size = 0\<rparr>],
      brk = 5, key_destructed = [], val_destructed = [], entered = []\<rparr>"



text \<open>
  The inputs of the scenarios S3, S4 and S6 of the specification: the keys \<^verbatim>\<open>key0000\<close> to
  \<^verbatim>\<open>key9999\<close>, zero-padded to four digits, with the values \<^verbatim>\<open>val0000\<close> to \<^verbatim>\<open>val9999\<close>
  (\<^verbatim>\<open>main\<close> formats the same numbers with \<^verbatim>\<open>%d\<close>, unpadded); \<open>s3_puts\<close> puts them in
  increasing order and \<open>s4_dels\<close> deletes them in the same order.
\<close>

definition digit :: "nat \<Rightarrow> char" where
  "digit d = ''0123456789'' ! (d mod 10)"

definition digit4 :: "nat \<Rightarrow> string" where
  "digit4 n = [digit (n div 1000), digit (n div 100), digit (n div 10), digit n]"

definition key_of :: "nat \<Rightarrow> string" where
  "key_of n = ''key'' @ digit4 n"

definition val_of :: "nat \<Rightarrow> string" where
  "val_of n = ''val'' @ digit4 n"

definition s3_puts :: "(string, string) operation list" where
  "s3_puts = map (\<lambda>n. PutOp (key_of n) (Some (val_of n))) [0..<10000]"

definition s4_dels :: "(string, string) operation list" where
  "s4_dels = map (\<lambda>n. DelOp (key_of n)) [0..<10000]"

section \<open>What a state holds\<close>

text \<open>
  The properties below are stated on the list of entries that a payload chain holds:
  an entry is the address of a payload with its key, kind and value.  \<open>chain m p es\<close>
  says that following \<^verbatim>\<open>next\<close> from \<open>p\<close> in the store \<open>m\<close> visits exactly the entries
  \<open>es\<close> and ends at the null pointer.  \<open>scan\<close>, \<open>ins\<close> and \<open>lookup\<close> are the list
  counterparts of \<^verbatim>\<open>get_payload\<close>, of the linking done by \<^verbatim>\<open>container_insert\<close>, and of
  the comparison sequence of a lookup.
\<close>

type_synonym ('k, 'v) entry = "addr \<times> 'k \<times> payload_type \<times> 'v option"

fun chain ::
  "(addr \<Rightarrow> ('k, 'v) payload option) \<Rightarrow> addr option \<Rightarrow> ('k, 'v) entry list \<Rightarrow> bool" where
  "chain m p [] \<longleftrightarrow> p = None"
| "chain m p ((a, k, t, v) # es) \<longleftrightarrow>
     p = Some a \<and>
     (case m a of None \<Rightarrow> False
      | Some pl \<Rightarrow> key pl = Some k \<and> val pl = v \<and> type pl = t \<and> chain m (next pl) es)"

fun scan ::
  "('k \<Rightarrow> 'k \<Rightarrow> int) \<Rightarrow> 'k \<Rightarrow> ('k, 'v) entry list \<Rightarrow> addr option \<Rightarrow> addr option \<times> bool" where
  "scan cmp k [] prev = (prev, False)"
| "scan cmp k ((a, k', t, v) # es) prev =
     (if cmp k k' \<le> 0
      then (if cmp k k' = 0 then (Some a, True) else (prev, False))
      else scan cmp k es (Some a))"

fun ins :: "('k \<Rightarrow> 'k \<Rightarrow> int) \<Rightarrow> ('k, 'v) entry \<Rightarrow> ('k, 'v) entry list \<Rightarrow> ('k, 'v) entry list" where
  "ins cmp e [] = [e]"
| "ins cmp (n, k, t, v) ((a, k', t', v') # es) =
     (if cmp k k' \<le> 0
      then (if cmp k k' = 0 then (a, k', t, v) # es else (n, k, t, v) # (a, k', t', v') # es)
      else (a, k', t', v') # ins cmp (n, k, t, v) es)"

fun lookup ::
  "('k \<Rightarrow> 'k \<Rightarrow> int) \<Rightarrow> 'k \<Rightarrow> ('k, 'v) entry list \<Rightarrow> (payload_type \<times> 'v option) option" where
  "lookup cmp k [] = None"
| "lookup cmp k ((a, k', t, v) # es) =
     (if cmp k k' \<le> 0
      then (if cmp k k' = 0 then Some (t, v) else None)
      else lookup cmp k es)"

text \<open>
  A total-order comparator: it returns 0 exactly on equal keys, is antisymmetric and
  transitive.
\<close>

definition total_order :: "('k \<Rightarrow> 'k \<Rightarrow> int) \<Rightarrow> bool" where
  "total_order cmp \<longleftrightarrow>
     (\<forall>a b. cmp a b = 0 \<longleftrightarrow> a = b) \<and>
     (\<forall>a b. cmp a b < 0 \<longleftrightarrow> cmp b a > 0) \<and>
     (\<forall>a b c. cmp a b < 0 \<and> cmp b c < 0 \<longrightarrow> cmp a c < 0)"

text \<open>
  \<open>degenerate s es\<close>: the tree of state \<open>s\<close> has height 1, is not migrating, has
  entered no overflow handler, and its root holds no container (when \<open>es\<close> is empty) or
  exactly one container, without a child, whose chain holds the entries \<open>es\<close>; and the
  payloads of that chain are all the payloads that are allocated.
\<close>

definition degenerate :: "('k, 'v) state \<Rightarrow> ('k, 'v) entry list \<Rightarrow> bool" where
  "degenerate s es \<longleftrightarrow>
     height (tree s) = 1 \<and> is_migrated (tree s) = 0 \<and> entered s = [] \<and>
     (\<exists>nd. node_mem s (root (tree s)) = Some nd \<and>
        (if es = [] then container_size nd = 0 \<and> container_count nd \<noteq> 0 \<and> containers nd \<noteq> []
         else container_size nd = 1 \<and>
           (\<exists>c cells p. containers nd = Some c # cells \<and>
              container_mem s c =
                Some \<lparr>payload_first = p, payload_size = of_nat (length es), child = None\<rparr> \<and>
              chain (payload_mem s) p es))) \<and>
     distinct (map fst es) \<and> (\<forall>a \<in> fst ` set es. a < brk s) \<and>
     (\<forall>a. payload_mem s a \<noteq> None \<longrightarrow> a \<in> fst ` set es)"

definition nvals :: "('k, 'v) entry list \<Rightarrow> nat" where
  "nvals es = length (filter (\<lambda>(a, k, t, v). v \<noteq> None) es)"

definition has_val :: "'v option \<Rightarrow> nat" where
  "has_val v = (if v = None then 0 else 1)"

fun result_of :: "(payload_type \<times> 'v option) option \<Rightarrow> 'v option" where
  "result_of None = None"
| "result_of (Some (Put, v)) = v"
| "result_of (Some (Del, v)) = None"

definition keys_sorted :: "('k \<Rightarrow> 'k \<Rightarrow> int) \<Rightarrow> ('k, 'v) entry list \<Rightarrow> bool" where
  "keys_sorted cmp es = sorted_wrt (\<lambda>x y. cmp (fst (snd x)) (fst (snd y)) < 0) es"

fun effect ::
  "('k \<Rightarrow> 'k \<Rightarrow> int) \<Rightarrow> addr \<Rightarrow> ('k, 'v) operation \<Rightarrow> ('k, 'v) entry list \<Rightarrow> ('k, 'v) entry list" where
  "effect cmp n (PutOp k v) es = ins cmp (n, k, Put, v) es"
| "effect cmp n (DelOp k) es = ins cmp (n, k, Del, None) es"
| "effect cmp n (GetOp k) es = es"

text \<open>The nodes that can be reached from the root through the child pointers.\<close>

inductive reachable :: "('k, 'v) state \<Rightarrow> addr \<Rightarrow> bool" for s :: "('k, 'v) state" where
  reachable_root: "reachable s (root (tree s))"
| reachable_child:
    "reachable s node \<Longrightarrow> node_mem s node = Some nd \<Longrightarrow> i < container_size nd \<Longrightarrow>
     array_read (containers nd) i = Inr c \<Longrightarrow> container_mem s c = Some ct \<Longrightarrow>
     child ct = Some ch \<Longrightarrow> reachable s ch"

text \<open>
  The invariants of one node, in the spec's words: \<open>container_keys s nd i ks\<close> says that
  the chain of container \<open>i\<close> holds the keys \<open>ks\<close>, in that order; a list of keys is
  strictly increasing when every key compares below every later one.  A node satisfies
  N1, P1 and P2 when its containers have chains \<open>kss\<close> such that the first keys
  (the separators) are strictly increasing (N1), every chain is strictly increasing (P1)
  and no chain is empty (P2).
\<close>

definition container_keys :: "('k, 'v) state \<Rightarrow> node \<Rightarrow> nat \<Rightarrow> 'k list \<Rightarrow> bool" where
  "container_keys s nd i ks \<longleftrightarrow>
     (\<exists>c ct es. array_read (containers nd) (of_nat i) = Inr c \<and> container_mem s c = Some ct \<and>
        chain (payload_mem s) (payload_first ct) es \<and> ks = map (fst \<circ> snd) es)"

definition strictly_increasing :: "('k \<Rightarrow> 'k \<Rightarrow> int) \<Rightarrow> 'k list \<Rightarrow> bool" where
  "strictly_increasing cmp ks = sorted_wrt (\<lambda>a b. cmp a b < 0) ks"

definition node_invariants :: "('k \<Rightarrow> 'k \<Rightarrow> int) \<Rightarrow> ('k, 'v) state \<Rightarrow> addr \<Rightarrow> bool" where
  "node_invariants cmp s node \<longleftrightarrow>
     (\<exists>nd kss. node_mem s node = Some nd \<and> length kss = unat (container_size nd) \<and>
        (\<forall>i < length kss. container_keys s nd i (kss ! i)) \<and>
        strictly_increasing cmp (map hd kss) \<and>
        (\<forall>ks \<in> set kss. strictly_increasing cmp ks) \<and>
        (\<forall>ks \<in> set kss. ks \<noteq> []))"

fun live_below :: "('k, 'v) state \<Rightarrow> payload_type \<Rightarrow> nat \<Rightarrow> nat" where
  "live_below s t 0 = 0"
| "live_below s t (Suc n) =
     (case payload_mem s n of None \<Rightarrow> 0 | Some p \<Rightarrow> if type p = t then 1 else 0) +
     live_below s t n"

definition live_payloads :: "('k, 'v) state \<Rightarrow> payload_type \<Rightarrow> nat" where
  "live_payloads s t = live_below s t (brk s)"




function first_above :: "('k \<Rightarrow> 'k \<Rightarrow> int) \<Rightarrow> 'k \<Rightarrow> 'k list \<Rightarrow> nat \<Rightarrow> nat" where
  "first_above cmp k ks i =
     (if i < length ks then (if cmp k (ks ! i) < 0 then i else first_above cmp k ks (Suc i))
      else i)"
  by pat_completeness auto
termination
  by (relation "measure (\<lambda>(cmp, k, ks, i). length ks - i)") simp_all

declare first_above.simps [simp del]

text \<open>
  The calls of a sequence of operations: its puts, its dels, and its puts of a value that
  is not null.
\<close>

fun put_calls :: "('k, 'v) operation list \<Rightarrow> nat" where
  "put_calls [] = 0"
| "put_calls (PutOp k v # xs) = Suc (put_calls xs)"
| "put_calls (x # xs) = put_calls xs"

fun del_calls :: "('k, 'v) operation list \<Rightarrow> nat" where
  "del_calls [] = 0"
| "del_calls (DelOp k # xs) = Suc (del_calls xs)"
| "del_calls (x # xs) = del_calls xs"

fun put_calls_with_value :: "('k, 'v) operation list \<Rightarrow> nat" where
  "put_calls_with_value [] = 0"
| "put_calls_with_value (PutOp k (Some v) # xs) = Suc (put_calls_with_value xs)"
| "put_calls_with_value (x # xs) = put_calls_with_value xs"

text \<open>
  A lifetime: \<^verbatim>\<open>bftree_create\<close>, a sequence of operations, \<^verbatim>\<open>bftree_free\<close>; its result is
  the number of calls of the key destructor and of the value destructor.  \<open>height_after\<close>
  is the height of the tree after a sequence of operations on a new tree.
\<close>

definition lifetime_calls ::
  "nat \<Rightarrow> header \<Rightarrow> 'k bftree_opts \<Rightarrow> ('k, 'v) operation list \<Rightarrow> error + nat \<times> nat" where
  "lifetime_calls fuel hdr options xs =
     bind (run fuel hdr (bftree_create hdr options) xs) (\<lambda>s.
     bind (bftree_free fuel s) (\<lambda>s.
       Inr (length (key_destructed s), length (val_destructed s))))"


section \<open>The chain and its list\<close>

lemma chain_frame:
  "a \<notin> fst ` set es \<Longrightarrow> chain (m(a := x)) p es = chain m p es"
  by (induction es arbitrary: p) (auto split: option.splits)

lemma get_payload_loop_scan:
  "chain (payload_mem s) p es \<Longrightarrow> length es \<le> fuel \<Longrightarrow>
   get_payload_loop fuel s cmp (Some k) p prev = Inr (scan cmp k es prev)"
proof (induction es arbitrary: p prev fuel)
  case Nil
  then show ?case by simp
next
  case (Cons e es)
  obtain a k' t v where e: "e = (a, k', t, v)"
    by (cases e)
  from Cons.prems(2) obtain fuel' where fuel: "fuel = Suc fuel'" "length es \<le> fuel'"
    by (cases fuel) auto
  from Cons.prems(1) e obtain pl where pl: "p = Some a" "payload_mem s a = Some pl"
      "key pl = Some k'" "chain (payload_mem s) (next pl) es"
    by (auto split: option.splits)
  show ?case
    using Cons.IH [OF pl(4) fuel(2)] pl fuel e
    by (simp add: payload_at_def compare_keys_def)
qed

lemma lookup_ins_same:
  "cmp k k = 0 \<Longrightarrow> lookup cmp k (ins cmp (n, k, t, v) es) = Some (t, v)"
  by (induction es) auto

lemma lookup_ins_other:
  assumes "total_order cmp" "k' \<noteq> k"
  shows "lookup cmp k' (ins cmp (n, k, t, v) es) = lookup cmp k' es"
proof (induction es)
  case Nil
  from assms show ?case
    by (auto simp: total_order_def)
next
  case (Cons e es)
  obtain a ke te ve where e: "e = (a, ke, te, ve)"
    by (cases e)
  from assms have eq: "\<And>x y. cmp x y = 0 \<longleftrightarrow> x = y"
    and tr: "\<And>x y z. cmp x y < 0 \<Longrightarrow> cmp y z < 0 \<Longrightarrow> cmp x z < 0"
    unfolding total_order_def by blast+
  have rf: "\<And>x. cmp x x = 0"
    by (simp add: eq)
  show ?case
    using Cons.IH assms(2) tr [of k' k ke] unfolding e
    by (auto simp: eq rf not_le order.order_iff_strict)
qed

lemma find_container_fresh:
  assumes "node_mem s r = Some nd" "container_size nd = 0"
  shows "find_container s cmp r k 0 = Inr 0"
  using assms by (simp add: find_container_def node_at_def find_container_loop.simps [of _ _ _ _ 0])

lemma find_container_single:
  assumes "node_mem s r = Some nd" "container_size nd = 1" "containers nd = Some c # cells"
    "container_mem s c = Some ct" "payload_first ct = Some a" "payload_mem s a = Some pl"
    "key pl = Some k'"
  shows "find_container s cmp r (Some k) 0 = Inr 0"
  using assms
  by (simp add: find_container_def node_at_def find_container_loop.simps [of _ _ _ _ 0]
      find_container_loop.simps [of _ _ _ _ 1] array_read_int_def array_read_def increment_def
      decrement_def container_at_def payload_at_def compare_keys_def)

lemma insert_empty:
  assumes "node_mem s r = Some nd" "container_size nd = 0" "container_count nd \<noteq> 0"
    "containers nd \<noteq> []" "payload_mem s n = Some \<lparr>key = Some k, val = v, type = t, next = None\<rparr>"
    "is_migrated (tree s) = 0"
  shows "\<exists>s'. container_insert (Suc fuel) hdr s r 0 n = Inr (brk s, s') \<and>
     payload_mem s' = payload_mem s \<and>
     container_mem s' = (container_mem s)
             (brk s \<mapsto> \<lparr>payload_first = Some n, payload_size = 1, child = None\<rparr>) \<and>
     node_mem s' = (node_mem s)
             (r \<mapsto> nd\<lparr>containers := (containers nd)[0 := Some (brk s)], container_size := 1\<rparr>) \<and>
     brk s' = Suc (brk s) \<and> tree s' = tree s \<and> entered s' = entered s \<and>
     key_destructed s' = key_destructed s \<and> val_destructed s' = val_destructed s"
  using assms
  by (simp add: container_insert_body_def node_at_def container_create_def
      insert_after_container_def array_write_def container_at_def payload_at_def get_payload_def
      payload_upd_def container_upd_def Let_def fun_upd_idem)

lemma insert_head:
  assumes "node_mem s r = Some nd" "container_size nd = 1" "containers nd = Some c # cells"
    "container_mem s c = Some \<lparr>payload_first = p, payload_size = sz, child = None\<rparr>"
    "chain (payload_mem s) p es" "length es \<le> Suc fuel"
    "payload_mem s n = Some \<lparr>key = Some k, val = v, type = t, next = None\<rparr>"
    "is_migrated (tree s) = 0"
    "scan (key_compare (opts (tree s))) k es None = (None, False)"
  shows "\<exists>s'. container_insert (Suc fuel) hdr s r 0 n = Inr (c, s') \<and>
     payload_mem s' = (payload_mem s)(n \<mapsto> \<lparr>key = Some k, val = v, type = t, next = p\<rparr>) \<and>
     container_mem s' = (container_mem s)
             (c \<mapsto> \<lparr>payload_first = Some n, payload_size = sz + 1, child = None\<rparr>) \<and>
     node_mem s' = node_mem s \<and>
     brk s' = brk s \<and> tree s' = tree s \<and> entered s' = entered s \<and>
     key_destructed s' = key_destructed s \<and> val_destructed s' = val_destructed s"
  using assms get_payload_loop_scan [OF assms(5) assms(6), of "key_compare (opts (tree s))" k None]
  by (simp add: container_insert_body_def node_at_def array_read_def
      container_at_def payload_at_def get_payload_def
      payload_upd_def container_upd_def Let_def)

lemma insert_after:
  assumes "node_mem s r = Some nd" "container_size nd = 1" "containers nd = Some c # cells"
    "container_mem s c = Some \<lparr>payload_first = p, payload_size = sz, child = None\<rparr>"
    "chain (payload_mem s) p es" "length es \<le> Suc fuel"
    "payload_mem s n = Some \<lparr>key = Some k, val = v, type = t, next = None\<rparr>"
    "is_migrated (tree s) = 0"
    "scan (key_compare (opts (tree s))) k es None = (Some a, False)"
    "payload_mem s a = Some pl" "a \<noteq> n"
  shows "\<exists>s'. container_insert (Suc fuel) hdr s r 0 n = Inr (c, s') \<and>
     payload_mem s' = (payload_mem s)
        (n \<mapsto> \<lparr>key = Some k, val = v, type = t, next = next pl\<rparr>, a \<mapsto> pl\<lparr>next := Some n\<rparr>) \<and>
     container_mem s' = (container_mem s)
             (c \<mapsto> \<lparr>payload_first = p, payload_size = sz + 1, child = None\<rparr>) \<and>
     node_mem s' = node_mem s \<and>
     brk s' = brk s \<and> tree s' = tree s \<and> entered s' = entered s \<and>
     key_destructed s' = key_destructed s \<and> val_destructed s' = val_destructed s"
  using assms get_payload_loop_scan [OF assms(5) assms(6), of "key_compare (opts (tree s))" k None]
  by (simp add: container_insert_body_def node_at_def array_read_def
      container_at_def payload_at_def get_payload_def
      payload_upd_def container_upd_def Let_def)

lemma payload_replace_effect:
  assumes "payload_mem s a = Some pl"
    "payload_mem s n = Some \<lparr>key = Some k, val = v, type = t, next = nx\<rparr>" "a \<noteq> n"
  shows "\<exists>s'. payload_replace s a n = Inr s' \<and>
     payload_mem s' = (payload_mem s)(a \<mapsto> pl\<lparr>val := v, type := t\<rparr>, n := None) \<and>
     container_mem s' = container_mem s \<and>
     node_mem s' = node_mem s \<and>
     brk s' = brk s \<and> entered s' = entered s \<and>
     tree s' = (if t = Put
                then (tree s)\<lparr>put_payload_count := put_payload_count (tree s) - 1\<rparr>
                else (tree s)\<lparr>del_payload_count := del_payload_count (tree s) - 1\<rparr>) \<and>
     key_destructed s' =
       (if key_destructor (opts (tree s)) then key_destructed s @ [k] else key_destructed s) \<and>
     val_destructed s' =
       (case val pl of None \<Rightarrow> val_destructed s
        | Some old \<Rightarrow> if val_destructor (opts (tree s)) then val_destructed s @ [old]
                      else val_destructed s)"
proof (cases "val pl")
  case None
  with assms show ?thesis
    by (simp add: payload_replace_def payload_at_def payload_upd_def payload_free_def Let_def
        fun_upd_twist [of a n])
next
  case (Some old)
  with assms show ?thesis
    by (simp add: payload_replace_def payload_at_def payload_upd_def payload_free_def Let_def
        fun_upd_twist [of a n])
qed

lemma insert_replace:
  assumes "node_mem s r = Some nd" "container_size nd = 1" "containers nd = Some c # cells"
    "container_mem s c = Some \<lparr>payload_first = p, payload_size = sz, child = None\<rparr>"
    "chain (payload_mem s) p es" "length es \<le> Suc fuel"
    "payload_mem s n = Some \<lparr>key = Some k, val = v, type = t, next = None\<rparr>"
    "is_migrated (tree s) = 0"
    "scan (key_compare (opts (tree s))) k es None = (Some a, True)"
    "payload_mem s a = Some pl" "a \<noteq> n"
  shows "\<exists>s'. container_insert (Suc fuel) hdr s r 0 n = Inr (c, s') \<and>
     payload_mem s' = (payload_mem s)(a \<mapsto> pl\<lparr>val := v, type := t\<rparr>, n := None) \<and>
     container_mem s' = container_mem s \<and>
     node_mem s' = node_mem s \<and>
     brk s' = brk s \<and> entered s' = entered s \<and>
     tree s' = (if t = Put
                then (tree s)\<lparr>put_payload_count := put_payload_count (tree s) - 1\<rparr>
                else (tree s)\<lparr>del_payload_count := del_payload_count (tree s) - 1\<rparr>) \<and>
     key_destructed s' =
       (if key_destructor (opts (tree s)) then key_destructed s @ [k] else key_destructed s) \<and>
     val_destructed s' =
       (case val pl of None \<Rightarrow> val_destructed s
        | Some old \<Rightarrow> if val_destructor (opts (tree s)) then val_destructed s @ [old]
                      else val_destructed s)"
proof -
  from payload_replace_effect [OF assms(10) assms(7) assms(11)]
  obtain s' where s': "payload_replace s a n = Inr s'"
    and eff: "payload_mem s' = (payload_mem s)(a \<mapsto> pl\<lparr>val := v, type := t\<rparr>, n := None)"
      "container_mem s' = container_mem s" "node_mem s' = node_mem s" "brk s' = brk s"
      "entered s' = entered s"
      "tree s' = (if t = Put
                then (tree s)\<lparr>put_payload_count := put_payload_count (tree s) - 1\<rparr>
                else (tree s)\<lparr>del_payload_count := del_payload_count (tree s) - 1\<rparr>)"
      "key_destructed s' =
       (if key_destructor (opts (tree s)) then key_destructed s @ [k] else key_destructed s)"
      "val_destructed s' =
       (case val pl of None \<Rightarrow> val_destructed s
        | Some old \<Rightarrow> if val_destructor (opts (tree s)) then val_destructed s @ [old]
                      else val_destructed s)"
    by blast
  have mig: "is_migrated (tree s') = 0"
    using eff(6) assms(8) by (simp split: if_splits)
  have "container_insert (Suc fuel) hdr s r 0 n = Inr (c, s')"
    using assms(1-4,7,9) s' eff(2) mig
      get_payload_loop_scan [OF assms(5) assms(6), of "key_compare (opts (tree s))" k None]
    by (simp add: container_insert_body_def node_at_def array_read_def
        container_at_def payload_at_def get_payload_def non_null_def)
  with eff show ?thesis
    by blast
qed

lemma nvals_Cons [simp]: "nvals ((a, k, t, v) # es) = has_val v + nvals es"
  by (simp add: nvals_def has_val_def)

lemma nvals_Nil [simp]: "nvals [] = 0"
  by (simp add: nvals_def)

lemma ins_counts:
  "case scan cmp k es prev of
     (r, True) \<Rightarrow>
       length (ins cmp (n, k, t, v) es) = length es \<and>
       fst ` set (ins cmp (n, k, t, v) es) = fst ` set es \<and>
       (\<exists>a k' t' v'. r = Some a \<and> (a, k', t', v') \<in> set es \<and>
          nvals (ins cmp (n, k, t, v) es) + has_val v' = nvals es + has_val v)
   | (r, False) \<Rightarrow>
       length (ins cmp (n, k, t, v) es) = Suc (length es) \<and>
       fst ` set (ins cmp (n, k, t, v) es) = insert n (fst ` set es) \<and>
       nvals (ins cmp (n, k, t, v) es) = nvals es + has_val v"
proof (induction es arbitrary: prev)
  case Nil
  show ?case by simp
next
  case (Cons e es)
  obtain a ke te ve where e: "e = (a, ke, te, ve)"
    by (cases e)
  show ?case
    using Cons.IH [of "Some a"] unfolding e
    by (auto split: prod.splits bool.splits)
qed

lemma chain_mem:
  "chain m p es \<Longrightarrow> distinct (map fst es) \<Longrightarrow> (a, k, t, v) \<in> set es \<Longrightarrow>
   \<exists>pl. m a = Some pl \<and> key pl = Some k \<and> val pl = v \<and> type pl = t"
proof (induction es arbitrary: p)
  case Nil
  then show ?case by simp
next
  case (Cons e es)
  obtain a' ke te ve where e: "e = (a', ke, te, ve)"
    by (cases e)
  show ?case
  proof (cases "(a, k, t, v) = e")
    case True
    with Cons.prems(1) e show ?thesis
      by (auto split: option.splits)
  next
    case False
    with Cons.prems e have "(a, k, t, v) \<in> set es" "distinct (map fst es)"
      by auto
    moreover from Cons.prems(1) e obtain q where "chain m q es"
      by (auto split: option.splits)
    ultimately show ?thesis
      using Cons.IH by blast
  qed
qed

lemma scan_link:
  assumes new: "m n = Some \<lparr>key = Some k, val = v, type = t, next = None\<rparr>"
  shows "chain m p es \<Longrightarrow> distinct (map fst es) \<Longrightarrow> n \<notin> fst ` set es \<Longrightarrow>
    prev \<notin> Some ` fst ` set es \<Longrightarrow>
    (case scan cmp k es prev of
       (r, True) \<Rightarrow>
         (\<exists>a pl. r = Some a \<and> a \<in> fst ` set es \<and> m a = Some pl \<and>
            chain (m(a \<mapsto> pl\<lparr>val := v, type := t\<rparr>, n := None)) p (ins cmp (n, k, t, v) es))
     | (r, False) \<Rightarrow>
         if r = prev then ins cmp (n, k, t, v) es = (n, k, t, v) # es
         else (\<exists>a pl. r = Some a \<and> a \<in> fst ` set es \<and> m a = Some pl \<and>
            chain (m(n \<mapsto> \<lparr>key = Some k, val = v, type = t, next = next pl\<rparr>,
                     a \<mapsto> pl\<lparr>next := Some n\<rparr>)) p (ins cmp (n, k, t, v) es)))"
proof (induction es arbitrary: p prev)
  case Nil
  show ?case by simp
next
  case (Cons e es)
  obtain a ke te ve where e: "e = (a, ke, te, ve)"
    by (cases e)
  from Cons.prems(1) e obtain pl where pl: "p = Some a" "m a = Some pl" "key pl = Some ke"
      "val pl = ve" "type pl = te" "chain m (next pl) es"
    by (auto split: option.splits)
  from Cons.prems e have d: "a \<notin> fst ` set es" "distinct (map fst es)" "n \<notin> fst ` set es"
      "n \<noteq> a" "prev \<noteq> Some a"
    by auto
  consider (lt) "cmp k ke < 0" | (eq) "cmp k ke = 0" | (gt) "cmp k ke > 0"
    by linarith
  then show ?case
  proof cases
    case lt
    then show ?thesis
      unfolding e by simp
  next
    case eq
    have "chain (m(a \<mapsto> pl\<lparr>val := v, type := t\<rparr>, n := None)) (next pl) es"
      using pl(6) d by (simp add: chain_frame)
    with eq pl d show ?thesis
      unfolding e by simp
  next
    case gt
    obtain r b where sc: "scan cmp k es (Some a) = (r, b)"
      by (cases "scan cmp k es (Some a)")
    have pa: "Some a \<notin> Some ` fst ` set es"
      using d(1) by auto
    note ih = Cons.IH [OF pl(6) d(2) d(3) pa, unfolded sc, simplified]
    have sc': "scan cmp k (e # es) prev = (r, b)"
      using gt sc unfolding e by simp
    show ?thesis
    proof (cases b)
      case True
      with ih obtain a' pl' where a': "r = Some a'" "a' \<in> fst ` set es" "m a' = Some pl'"
          "chain (m(a' \<mapsto> pl'\<lparr>val := v, type := t\<rparr>, n := None)) (next pl)
             (ins cmp (n, k, t, v) es)"
        by auto
      from a'(2) d(1) have "a \<noteq> a'"
        by auto
      with a' pl d(4) gt have "chain (m(a' \<mapsto> pl'\<lparr>val := v, type := t\<rparr>, n := None)) p
          (ins cmp (n, k, t, v) (e # es))"
        unfolding e by simp
      with a'(1,2,3) have "\<exists>a pl. r = Some a \<and> a \<in> fst ` set (e # es) \<and> m a = Some pl \<and>
            chain (m(a \<mapsto> pl\<lparr>val := v, type := t\<rparr>, n := None)) p
              (ins cmp (n, k, t, v) (e # es))"
        by (intro exI [of _ a'] exI [of _ pl']) simp
      then show ?thesis
        by (simp add: sc' True)
    next
      case False
      show ?thesis
      proof (cases "r = Some a")
        case r: True
        with ih False have i: "ins cmp (n, k, t, v) es = (n, k, t, v) # es"
          by simp
        have "chain (m(n \<mapsto> \<lparr>key = Some k, val = v, type = t, next = next pl\<rparr>,
                     a \<mapsto> pl\<lparr>next := Some n\<rparr>)) (next pl) es"
          using pl(6) d by (simp add: chain_frame)
        with pl d gt have "chain (m(n \<mapsto> \<lparr>key = Some k, val = v, type = t, next = next pl\<rparr>,
                     a \<mapsto> pl\<lparr>next := Some n\<rparr>)) p (ins cmp (n, k, t, v) (e # es))"
          unfolding e by (simp add: i)
        with r pl(2) have "\<exists>a pl. r = Some a \<and> a \<in> fst ` set (e # es) \<and> m a = Some pl \<and>
            chain (m(n \<mapsto> \<lparr>key = Some k, val = v, type = t, next = next pl\<rparr>,
                     a \<mapsto> pl\<lparr>next := Some n\<rparr>)) p (ins cmp (n, k, t, v) (e # es))"
          by (intro exI [of _ a] exI [of _ pl]) (simp add: e)
        with r d(5) show ?thesis
          by (simp add: sc' False)
      next
        case r: False
        with ih False obtain a' pl' where a': "r = Some a'" "a' \<in> fst ` set es"
            "m a' = Some pl'"
            "chain (m(n \<mapsto> \<lparr>key = Some k, val = v, type = t, next = next pl'\<rparr>,
                     a' \<mapsto> pl'\<lparr>next := Some n\<rparr>)) (next pl) (ins cmp (n, k, t, v) es)"
          by auto
        from a'(2) d(1) have "a \<noteq> a'"
          by auto
        with a' pl d(4) gt have "chain (m(n \<mapsto> \<lparr>key = Some k, val = v, type = t, next = next pl'\<rparr>,
                     a' \<mapsto> pl'\<lparr>next := Some n\<rparr>)) p (ins cmp (n, k, t, v) (e # es))"
          unfolding e by simp
        with a'(1,2,3) have "\<exists>a pl. r = Some a \<and> a \<in> fst ` set (e # es) \<and> m a = Some pl \<and>
            chain (m(n \<mapsto> \<lparr>key = Some k, val = v, type = t, next = next pl\<rparr>,
                     a \<mapsto> pl\<lparr>next := Some n\<rparr>)) p (ins cmp (n, k, t, v) (e # es))"
          by (intro exI [of _ a'] exI [of _ pl']) simp
        moreover have "r \<noteq> prev"
          using a'(1,2) Cons.prems(4) by auto
        ultimately show ?thesis
          by (simp add: sc' False)
      qed
    qed
  qed
qed

lemma degenerateI:
  assumes "height (tree s) = 1" "is_migrated (tree s) = 0" "entered s = []"
    "node_mem s (root (tree s)) = Some nd"
    "es = [] \<Longrightarrow> container_size nd = 0 \<and> container_count nd \<noteq> 0 \<and> containers nd \<noteq> []"
    "es \<noteq> [] \<Longrightarrow> container_size nd = 1 \<and> containers nd = Some c # cells \<and>
       container_mem s c =
         Some \<lparr>payload_first = p, payload_size = of_nat (length es), child = None\<rparr> \<and>
       chain (payload_mem s) p es"
    "distinct (map fst es)" "\<forall>a \<in> fst ` set es. a < brk s"
    "\<forall>a. payload_mem s a \<noteq> None \<longrightarrow> a \<in> fst ` set es"
  shows "degenerate s es"
  unfolding degenerate_def using assms by (cases "es = []") auto

lemma degenerate_emptyD:
  assumes "degenerate s []"
  obtains nd where "node_mem s (root (tree s)) = Some nd" "container_size nd = 0"
    "container_count nd \<noteq> 0" "containers nd \<noteq> []"
  using assms unfolding degenerate_def by auto

lemma degenerate_nonemptyD:
  assumes "degenerate s es" "es \<noteq> []"
  obtains nd c cells p where "node_mem s (root (tree s)) = Some nd" "container_size nd = 1"
    "containers nd = Some c # cells"
    "container_mem s c =
       Some \<lparr>payload_first = p, payload_size = of_nat (length es), child = None\<rparr>"
    "chain (payload_mem s) p es"
  using assms unfolding degenerate_def by auto

lemma degenerate_commonD:
  assumes "degenerate s es"
  shows "height (tree s) = 1" "is_migrated (tree s) = 0" "entered s = []"
    "distinct (map fst es)" "\<And>a. a \<in> fst ` set es \<Longrightarrow> a < brk s"
    "\<And>a. payload_mem s a \<noteq> None \<Longrightarrow> a \<in> fst ` set es"
  using assms unfolding degenerate_def by auto

lemma card_addrs: "distinct (map fst es) \<Longrightarrow> card (fst ` set es) = length es"
  using distinct_card [of "map fst es"] by simp

lemma distinct_addrs: "card (fst ` set es) = length es \<Longrightarrow> distinct (map fst es)"
  using card_distinct [of "map fst es"] by simp

lemma distinct_by_card:
  assumes "distinct (map fst es)" "fst ` set es' = fst ` set es" "length es' = length es"
  shows "distinct (map fst es')"
  using card_addrs [OF assms(1)] assms(2,3) by (intro distinct_addrs) simp

lemma distinct_by_card_insert:
  assumes "distinct (map fst es)" "fst ` set es' = insert n (fst ` set es)" "n \<notin> fst ` set es"
    "length es' = Suc (length es)"
  shows "distinct (map fst es')"
  using card_addrs [OF assms(1)] assms(2,3,4) by (intro distinct_addrs) simp

lemma insert_step_empty:
  fixes s :: "('k, 'v) state" and k :: 'k and v :: "'v option" and t :: payload_type
  assumes deg: "degenerate s []"
  defines "n \<equiv> brk s"
  defines "s1 \<equiv> s\<lparr>payload_mem := (payload_mem s)
      (n \<mapsto> \<lparr>key = Some k, val = v, type = t, next = None\<rparr>), brk := Suc n\<rparr>"
  shows "\<exists>c s'. container_insert (Suc f) hdr s1 (root (tree s)) 0 n = Inr (c, s') \<and>
     degenerate s' [(n, k, t, v)] \<and> tree s' = tree s \<and>
     key_destructed s' = key_destructed s \<and> val_destructed s' = val_destructed s"
proof -
  note c = degenerate_commonD [OF deg]
  from deg obtain nd where nd: "node_mem s (root (tree s)) = Some nd" "container_size nd = 0"
      "container_count nd \<noteq> 0" "containers nd \<noteq> []"
    by (rule degenerate_emptyD)
  have nd1: "node_mem s1 (root (tree s)) = Some nd"
    using nd(1) by (simp add: s1_def)
  have new: "payload_mem s1 n = Some \<lparr>key = Some k, val = v, type = t, next = None\<rparr>"
    by (simp add: s1_def)
  have mig: "is_migrated (tree s1) = 0"
    using c(2) by (simp add: s1_def)
  from insert_empty [OF nd1 nd(2) nd(3) nd(4) new mig, of f hdr]
  obtain s' where s': "container_insert (Suc f) hdr s1 (root (tree s)) 0 n = Inr (brk s1, s')"
    and pm: "payload_mem s' = payload_mem s1"
    and cm: "container_mem s' = (container_mem s1)
             (brk s1 \<mapsto> \<lparr>payload_first = Some n, payload_size = 1, child = None\<rparr>)"
    and nm: "node_mem s' = (node_mem s1)
             (root (tree s) \<mapsto> nd\<lparr>containers := (containers nd)[0 := Some (brk s1)],
                container_size := 1\<rparr>)"
    and rest: "brk s' = Suc (brk s1)" "tree s' = tree s1" "entered s' = entered s1"
      "key_destructed s' = key_destructed s1" "val_destructed s' = val_destructed s1"
    by blast
  have cells: "(containers nd)[0 := x] = x # tl (containers nd)" for x
    using nd(4) by (cases "containers nd") simp_all
  have dead: "payload_mem s a = None" for a
    using c(6) [of a] by (cases "payload_mem s a") auto
  have live: "\<forall>a. payload_mem s' a \<noteq> None \<longrightarrow> a \<in> fst ` set [(n, k, t, v)]"
    by (simp add: pm s1_def dead)
  have h1: "height (tree s') = 1" "is_migrated (tree s') = 0" "entered s' = []"
    using c(1,2,3) by (simp_all add: rest s1_def)
  have h4: "node_mem s' (root (tree s')) = Some (nd\<lparr>containers := Some (brk s1) # tl (containers nd),
      container_size := 1\<rparr>)"
    by (simp add: nm rest cells s1_def)
  have h5: "[(n, k, t, v)] = [] \<Longrightarrow>
      container_size (nd\<lparr>containers := Some (brk s1) # tl (containers nd), container_size := 1\<rparr>) = 0 \<and>
      container_count (nd\<lparr>containers := Some (brk s1) # tl (containers nd), container_size := 1\<rparr>) \<noteq> 0 \<and>
      containers (nd\<lparr>containers := Some (brk s1) # tl (containers nd), container_size := 1\<rparr>) \<noteq> []"
    by simp
  have h6: "[(n, k, t, v)] \<noteq> [] \<Longrightarrow>
      container_size (nd\<lparr>containers := Some (brk s1) # tl (containers nd), container_size := 1\<rparr>) = 1 \<and>
      containers (nd\<lparr>containers := Some (brk s1) # tl (containers nd), container_size := 1\<rparr>) =
        Some (brk s1) # tl (containers nd) \<and>
      container_mem s' (brk s1) =
        Some \<lparr>payload_first = Some n, payload_size = of_nat (length [(n, k, t, v)]), child = None\<rparr> \<and>
      chain (payload_mem s') (Some n) [(n, k, t, v)]"
    by (simp add: cm pm new)
  have h7: "distinct (map fst [(n, k, t, v)])" "\<forall>a \<in> fst ` set [(n, k, t, v)]. a < brk s'"
    by (simp_all add: rest s1_def)
  have "degenerate s' [(n, k, t, v)]"
    by (rule degenerateI [OF h1 h4 h5 h6 h7 live])
  moreover have "tree s' = tree s" "key_destructed s' = key_destructed s"
    "val_destructed s' = val_destructed s"
    by (simp_all add: rest s1_def)
  ultimately show ?thesis
    using s' by blast
qed

lemma insert_step_nonempty:
  fixes s :: "('k, 'v) state" and k :: 'k and v :: "'v option" and t :: payload_type
  assumes deg: "degenerate s es" and ne: "es \<noteq> []" and fuel: "length es \<le> Suc f"
  defines "n \<equiv> brk s"
  defines "s1 \<equiv> s\<lparr>payload_mem := (payload_mem s)
      (n \<mapsto> \<lparr>key = Some k, val = v, type = t, next = None\<rparr>), brk := Suc n\<rparr>"
  defines "es' \<equiv> ins (key_compare (opts (tree s))) (n, k, t, v) es"
  shows "\<exists>c s'. container_insert (Suc f) hdr s1 (root (tree s)) 0 n = Inr (c, s') \<and>
     degenerate s' es' \<and> opts (tree s') = opts (tree s) \<and>
     (key_destructor (opts (tree s)) \<longrightarrow>
        length (key_destructed s') + length es' = Suc (length (key_destructed s) + length es)) \<and>
     (val_destructor (opts (tree s)) \<longrightarrow>
        length (val_destructed s') + nvals es' = length (val_destructed s) + nvals es + has_val v) \<and>
     (\<forall>a pl. scan (key_compare (opts (tree s))) k es None = (Some a, True) \<and>
        payload_mem s a = Some pl \<longrightarrow>
        payload_mem s' a = Some (pl\<lparr>val := v, type := t\<rparr>) \<and> payload_mem s' n = None)"
proof -
  define cmp where "cmp = key_compare (opts (tree s))"
  note c = degenerate_commonD [OF deg]
  from deg ne obtain nd ct cells p where nd: "node_mem s (root (tree s)) = Some nd"
      "container_size nd = 1" "containers nd = Some ct # cells"
      "container_mem s ct =
         Some \<lparr>payload_first = p, payload_size = of_nat (length es), child = None\<rparr>"
      "chain (payload_mem s) p es"
    by (rule degenerate_nonemptyD)
  have fresh: "n \<notin> fst ` set es"
    using c(5) [of n] by (auto simp: n_def)
  have nd1: "node_mem s1 (root (tree s)) = Some nd"
    "container_mem s1 ct =
         Some \<lparr>payload_first = p, payload_size = of_nat (length es), child = None\<rparr>"
    using nd by (simp_all add: s1_def)
  have ch1: "chain (payload_mem s1) p es"
    using nd(5) fresh by (simp add: s1_def chain_frame)
  have new: "payload_mem s1 n = Some \<lparr>key = Some k, val = v, type = t, next = None\<rparr>"
    by (simp add: s1_def)
  have mig: "is_migrated (tree s1) = 0"
    using c(2) by (simp add: s1_def)
  have tr1: "tree s1 = tree s" "brk s1 = Suc n" "entered s1 = []"
    "key_destructed s1 = key_destructed s" "val_destructed s1 = val_destructed s"
    using c(3) by (simp_all add: s1_def)
  have pnone: "None \<notin> Some ` fst ` set es"
    by auto
  obtain r b where sc: "scan cmp k es None = (r, b)"
    by (cases "scan cmp k es None")
  have sc1: "scan (key_compare (opts (tree s1))) k es None = (r, b)"
    using sc by (simp add: cmp_def tr1)
  note link = scan_link [OF new ch1 c(4) fresh pnone, where cmp = cmp, unfolded sc, simplified]
  note cnt = ins_counts [where cmp = cmp and k = k and es = es and prev = None and n = n and t = t
      and v = v, unfolded sc, simplified]
  have es': "es' = ins cmp (n, k, t, v) es"
    by (simp add: es'_def cmp_def)
  have lt: "\<And>a. a \<in> fst ` set es \<Longrightarrow> a < Suc n"
    using c(5) by (auto simp: n_def less_Suc_eq)
  show ?thesis
  proof (cases b)
    case True
    from link True obtain a pl where a: "r = Some a" "a \<in> fst ` set es" "payload_mem s1 a = Some pl"
        "chain ((payload_mem s1)(a \<mapsto> pl\<lparr>val := v, type := t\<rparr>, n := None)) p es'"
      unfolding es' by auto
    from a(2) fresh have an: "a \<noteq> n"
      by auto
    from cnt True a(1) obtain k0 t0 v0 where cn: "length es' = length es"
        "fst ` set es' = fst ` set es" "(a, k0, t0, v0) \<in> set es"
        "nvals es' + has_val v0 = nvals es + has_val v"
      unfolding es' by auto
    from chain_mem [OF ch1 c(4) cn(3)] a(3) have vpl: "val pl = v0"
      by auto
    have sc2: "scan (key_compare (opts (tree s1))) k es None = (Some a, True)"
      using sc1 a(1) True by simp
    from insert_replace [OF nd1(1) nd(2) nd(3) nd1(2) ch1 fuel new mig sc2 a(3) an,
        where hdr = hdr]
    obtain s' where s': "container_insert (Suc f) hdr s1 (root (tree s)) 0 n = Inr (ct, s')"
      and pm: "payload_mem s' = (payload_mem s1)(a \<mapsto> pl\<lparr>val := v, type := t\<rparr>, n := None)"
      and cm: "container_mem s' = container_mem s1" and nm: "node_mem s' = node_mem s1"
      and rest: "brk s' = brk s1" "entered s' = entered s1"
      and tr: "tree s' = (if t = Put
                then (tree s1)\<lparr>put_payload_count := put_payload_count (tree s1) - 1\<rparr>
                else (tree s1)\<lparr>del_payload_count := del_payload_count (tree s1) - 1\<rparr>)"
      and kd: "key_destructed s' =
       (if key_destructor (opts (tree s1)) then key_destructed s1 @ [k] else key_destructed s1)"
      and vd: "val_destructed s' =
       (case val pl of None \<Rightarrow> val_destructed s1
        | Some old \<Rightarrow> if val_destructor (opts (tree s1)) then val_destructed s1 @ [old]
                      else val_destructed s1)"
      by blast
    have h1: "height (tree s') = 1" "is_migrated (tree s') = 0" "entered s' = []"
      using c(1,2,3) by (simp_all add: tr rest tr1)
    have rt: "root (tree s') = root (tree s)" "opts (tree s') = opts (tree s)"
      by (simp_all add: tr tr1)
    have h4: "node_mem s' (root (tree s')) = Some nd"
      by (simp add: nm nd1 rt)
    have h5: "es' = [] \<Longrightarrow> container_size nd = 0 \<and> container_count nd \<noteq> 0 \<and> containers nd \<noteq> []"
      using cn(1) ne by simp
    have h6: "es' \<noteq> [] \<Longrightarrow> container_size nd = 1 \<and> containers nd = Some ct # cells \<and>
       container_mem s' ct =
         Some \<lparr>payload_first = p, payload_size = of_nat (length es'), child = None\<rparr> \<and>
       chain (payload_mem s') p es'"
      using nd(2,3) nd1(2) a(4) by (simp add: cm pm cn(1))
    have h7: "distinct (map fst es')"
      using c(4) cn(2) cn(1) by (rule distinct_by_card)
    have h8: "\<forall>a \<in> fst ` set es'. a < brk s'"
      using lt by (simp add: cn(2) rest tr1)
    have h9: "\<forall>x. payload_mem s' x \<noteq> None \<longrightarrow> x \<in> fst ` set es'"
      using c(6) a(2) by (auto simp: pm cn(2) s1_def)
    have d: "degenerate s' es'"
      by (rule degenerateI [OF h1 h4 h5 h6 h7 h8 h9])
    have acc1: "key_destructor (opts (tree s)) \<longrightarrow>
        length (key_destructed s') + length es' = Suc (length (key_destructed s) + length es)"
      by (simp add: kd tr1 cn(1))
    have acc2: "val_destructor (opts (tree s)) \<longrightarrow>
        length (val_destructed s') + nvals es' = length (val_destructed s) + nvals es + has_val v"
      using cn(4) vpl by (cases v0) (simp_all add: vd tr1 has_val_def)
    have eff: "\<forall>a' pl'. scan (key_compare (opts (tree s))) k es None = (Some a', True) \<and>
        payload_mem s a' = Some pl' \<longrightarrow>
        payload_mem s' a' = Some (pl'\<lparr>val := v, type := t\<rparr>) \<and> payload_mem s' n = None"
      using sc a(1) a(3) an by (auto simp: cmp_def pm s1_def)
    from s' d rt(2) acc1 acc2 eff show ?thesis
      by blast
  next
    case False
    from cnt False have cn: "length es' = Suc (length es)"
        "fst ` set es' = insert n (fst ` set es)" "nvals es' = nvals es + has_val v"
      unfolding es' by auto
    have h7: "distinct (map fst es')"
      using c(4) cn(2) fresh cn(1) by (rule distinct_by_card_insert)
    have sz: "of_nat (length es) + 1 = (of_nat (length es') :: u32)"
      by (simp add: cn(1))
    have eff: "\<forall>a' pl'. scan (key_compare (opts (tree s))) k es None = (Some a', True) \<and>
        payload_mem s a' = Some pl' \<longrightarrow> P a' pl'" for P
      using sc False by (simp add: cmp_def)
    show ?thesis
    proof (cases r)
      case None
      with link False have i: "es' = (n, k, t, v) # es"
        unfolding es' by simp
      have sc2: "scan (key_compare (opts (tree s1))) k es None = (None, False)"
        using sc1 None False by simp
      from insert_head [OF nd1(1) nd(2) nd(3) nd1(2) ch1 fuel new mig sc2, where hdr = hdr]
      obtain s' where s': "container_insert (Suc f) hdr s1 (root (tree s)) 0 n = Inr (ct, s')"
        and pm: "payload_mem s' =
          (payload_mem s1)(n \<mapsto> \<lparr>key = Some k, val = v, type = t, next = p\<rparr>)"
        and cm: "container_mem s' = (container_mem s1)
             (ct \<mapsto> \<lparr>payload_first = Some n, payload_size = of_nat (length es) + 1, child = None\<rparr>)"
        and nm: "node_mem s' = node_mem s1"
        and rest: "brk s' = brk s1" "tree s' = tree s1" "entered s' = entered s1"
          "key_destructed s' = key_destructed s1" "val_destructed s' = val_destructed s1"
        by blast
      have h1: "height (tree s') = 1" "is_migrated (tree s') = 0" "entered s' = []"
        using c(1,2,3) by (simp_all add: rest tr1)
      have h4: "node_mem s' (root (tree s')) = Some nd"
        by (simp add: nm nd1 rest tr1)
      have h5: "es' = [] \<Longrightarrow> container_size nd = 0 \<and> container_count nd \<noteq> 0 \<and> containers nd \<noteq> []"
        using i by simp
      have "chain (payload_mem s') p es"
        using ch1 fresh by (simp add: pm chain_frame)
      then have h6: "es' \<noteq> [] \<Longrightarrow> container_size nd = 1 \<and> containers nd = Some ct # cells \<and>
         container_mem s' ct =
           Some \<lparr>payload_first = Some n, payload_size = of_nat (length es'), child = None\<rparr> \<and>
         chain (payload_mem s') (Some n) es'"
        using nd(2,3) sz by (simp add: cm i) (simp add: pm)
      have h8: "\<forall>a \<in> fst ` set es'. a < brk s'"
        using lt by (simp add: cn(2) rest tr1)
      have h9: "\<forall>x. payload_mem s' x \<noteq> None \<longrightarrow> x \<in> fst ` set es'"
        using c(6) by (auto simp: pm cn(2) s1_def)
      have d: "degenerate s' es'"
        by (rule degenerateI [OF h1 h4 h5 h6 h7 h8 h9])
      have acc: "opts (tree s') = opts (tree s)"
        "key_destructor (opts (tree s)) \<longrightarrow>
          length (key_destructed s') + length es' = Suc (length (key_destructed s) + length es)"
        "val_destructor (opts (tree s)) \<longrightarrow>
          length (val_destructed s') + nvals es' = length (val_destructed s) + nvals es + has_val v"
        by (simp_all add: rest tr1 cn)
      from s' d acc eff show ?thesis
        by blast
    next
      case (Some a0)
      with link False obtain a pl where a: "r = Some a" "a \<in> fst ` set es"
          "payload_mem s1 a = Some pl"
          "chain ((payload_mem s1)(n \<mapsto> \<lparr>key = Some k, val = v, type = t, next = next pl\<rparr>,
                     a \<mapsto> pl\<lparr>next := Some n\<rparr>)) p es'"
        unfolding es' by auto
      from a(2) fresh have an: "a \<noteq> n"
        by auto
      have sc2: "scan (key_compare (opts (tree s1))) k es None = (Some a, False)"
        using sc1 a(1) False by simp
      from insert_after [OF nd1(1) nd(2) nd(3) nd1(2) ch1 fuel new mig sc2 a(3) an,
          where hdr = hdr]
      obtain s' where s': "container_insert (Suc f) hdr s1 (root (tree s)) 0 n = Inr (ct, s')"
        and pm: "payload_mem s' = (payload_mem s1)
          (n \<mapsto> \<lparr>key = Some k, val = v, type = t, next = next pl\<rparr>, a \<mapsto> pl\<lparr>next := Some n\<rparr>)"
        and cm: "container_mem s' = (container_mem s1)
             (ct \<mapsto> \<lparr>payload_first = p, payload_size = of_nat (length es) + 1, child = None\<rparr>)"
        and nm: "node_mem s' = node_mem s1"
        and rest: "brk s' = brk s1" "tree s' = tree s1" "entered s' = entered s1"
          "key_destructed s' = key_destructed s1" "val_destructed s' = val_destructed s1"
        by blast
      have h1: "height (tree s') = 1" "is_migrated (tree s') = 0" "entered s' = []"
        using c(1,2,3) by (simp_all add: rest tr1)
      have h4: "node_mem s' (root (tree s')) = Some nd"
        by (simp add: nm nd1 rest tr1)
      have h5: "es' = [] \<Longrightarrow> container_size nd = 0 \<and> container_count nd \<noteq> 0 \<and> containers nd \<noteq> []"
        using cn(1) by auto
      have h6: "es' \<noteq> [] \<Longrightarrow> container_size nd = 1 \<and> containers nd = Some ct # cells \<and>
         container_mem s' ct =
           Some \<lparr>payload_first = p, payload_size = of_nat (length es'), child = None\<rparr> \<and>
         chain (payload_mem s') p es'"
        using nd(2,3) sz a(4) by (simp add: cm pm)
      have h8: "\<forall>a \<in> fst ` set es'. a < brk s'"
        using lt by (simp add: cn(2) rest tr1)
      have h9: "\<forall>x. payload_mem s' x \<noteq> None \<longrightarrow> x \<in> fst ` set es'"
        using c(6) a(2) by (auto simp: pm cn(2) s1_def)
      have d: "degenerate s' es'"
        by (rule degenerateI [OF h1 h4 h5 h6 h7 h8 h9])
      have acc: "opts (tree s') = opts (tree s)"
        "key_destructor (opts (tree s)) \<longrightarrow>
          length (key_destructed s') + length es' = Suc (length (key_destructed s) + length es)"
        "val_destructor (opts (tree s)) \<longrightarrow>
          length (val_destructed s') + nvals es' = length (val_destructed s) + nvals es + has_val v"
        by (simp_all add: rest tr1 cn)
      from s' d acc eff show ?thesis
        by blast
    qed
  qed
qed

lemma insert_step:
  fixes s :: "('k, 'v) state" and k :: 'k and v :: "'v option" and t :: payload_type
  assumes deg: "degenerate s es" and fuel: "length es < fuel"
  defines "n \<equiv> brk s"
  defines "s1 \<equiv> s\<lparr>payload_mem := (payload_mem s)
      (n \<mapsto> \<lparr>key = Some k, val = v, type = t, next = None\<rparr>), brk := Suc n\<rparr>"
  defines "es' \<equiv> ins (key_compare (opts (tree s))) (n, k, t, v) es"
  shows "\<exists>c s'. container_insert fuel hdr s1 (root (tree s)) 0 n = Inr (c, s') \<and>
     degenerate s' es' \<and> opts (tree s') = opts (tree s) \<and>
     (key_destructor (opts (tree s)) \<longrightarrow>
        length (key_destructed s') + length es' = Suc (length (key_destructed s) + length es)) \<and>
     (val_destructor (opts (tree s)) \<longrightarrow>
        length (val_destructed s') + nvals es' = length (val_destructed s) + nvals es + has_val v) \<and>
     (\<forall>a pl. scan (key_compare (opts (tree s))) k es None = (Some a, True) \<and>
        payload_mem s a = Some pl \<longrightarrow>
        payload_mem s' a = Some (pl\<lparr>val := v, type := t\<rparr>) \<and> payload_mem s' n = None)"
proof -
  from fuel obtain f where f: "fuel = Suc f" "length es \<le> Suc f"
    by (cases fuel) auto
  show ?thesis
  proof (cases "es = []")
    case True
    from insert_step_empty [OF deg [unfolded True], where k = k and v = v and t = t and f = f
        and hdr = hdr]
    obtain c s' where "container_insert (Suc f) hdr s1 (root (tree s)) 0 n = Inr (c, s')"
      "degenerate s' [(n, k, t, v)]" "tree s' = tree s"
      "key_destructed s' = key_destructed s" "val_destructed s' = val_destructed s"
      unfolding s1_def n_def by blast
    then show ?thesis
      unfolding f(1) es'_def True by (intro exI [of _ c] exI [of _ s']) simp
  next
    case False
    from insert_step_nonempty [OF deg False f(2), where k = k and v = v and t = t and hdr = hdr]
    show ?thesis
      unfolding f(1) s1_def n_def es'_def .
  qed
qed

lemma find_container_root:
  assumes "degenerate s es" "node_mem s1 = node_mem s" "container_mem s1 = container_mem s"
    "\<And>a. a \<in> fst ` set es \<Longrightarrow> payload_mem s1 a = payload_mem s a"
  shows "find_container s1 cmp (root (tree s)) (Some k) 0 = Inr 0"
proof (cases "es = []")
  case True
  with assms(1) obtain nd where "node_mem s (root (tree s)) = Some nd" "container_size nd = 0"
    by (auto elim: degenerate_emptyD)
  then show ?thesis
    by (intro find_container_fresh [where nd = nd]) (simp_all add: assms(2))
next
  case False
  with assms(1) obtain nd c cells p where nd: "node_mem s (root (tree s)) = Some nd"
      "container_size nd = 1" "containers nd = Some c # cells"
      "container_mem s c =
         Some \<lparr>payload_first = p, payload_size = of_nat (length es), child = None\<rparr>"
      "chain (payload_mem s) p es"
    by (rule degenerate_nonemptyD)
  from False obtain a k' t v es' where es: "es = (a, k', t, v) # es'"
    by (cases es) auto
  from nd(5) es obtain pl where pl: "p = Some a" "payload_mem s a = Some pl" "key pl = Some k'"
    by (auto split: option.splits)
  have "payload_mem s1 a = Some pl"
    using assms(4) [of a] pl(2) es by simp
  with nd pl show ?thesis
    by (intro find_container_single [where ct = "\<lparr>payload_first = p,
          payload_size = of_nat (length es), child = None\<rparr>" and nd = nd and c = c
          and cells = cells and a = a and pl = pl and k' = k'])
      (simp_all add: assms(2,3))
qed

lemma insert_op_step:
  fixes s :: "('k, 'v) state" and k :: 'k and v :: "'v option" and t :: payload_type
  assumes deg: "degenerate s es" and fuel: "length es < fuel"
  defines "es' \<equiv> ins (key_compare (opts (tree s))) (brk s, k, t, v) es"
  shows "\<exists>s'. (let (new_payload, s) = payload_create s (Some k) v t in
      bind (payload_at s (Some new_payload)) (\<lambda>np.
      bind (find_container s (key_compare (opts (tree s))) (root (tree s)) (key np) 0) (\<lambda>idx.
      bind (container_insert fuel hdr s (root (tree s)) idx new_payload) (\<lambda>(target, s).
        Inr (BF_OK hdr, s))))) = Inr (BF_OK hdr, s') \<and>
     degenerate s' es' \<and> opts (tree s') = opts (tree s) \<and>
     (key_destructor (opts (tree s)) \<longrightarrow>
        length (key_destructed s') + length es' = Suc (length (key_destructed s) + length es)) \<and>
     (val_destructor (opts (tree s)) \<longrightarrow>
        length (val_destructed s') + nvals es' = length (val_destructed s) + nvals es + has_val v) \<and>
     (\<forall>a pl. scan (key_compare (opts (tree s))) k es None = (Some a, True) \<and>
        payload_mem s a = Some pl \<longrightarrow>
        payload_mem s' a = Some (pl\<lparr>val := v, type := t\<rparr>) \<and> payload_mem s' (brk s) = None)"
proof -
  define s1 where "s1 = s\<lparr>payload_mem := (payload_mem s)
      (brk s \<mapsto> \<lparr>key = Some k, val = v, type = t, next = None\<rparr>), brk := Suc (brk s)\<rparr>"
  have pc: "payload_create s (Some k) v t = (brk s, s1)"
    by (simp add: payload_create_def s1_def Let_def)
  have pa: "payload_at s1 (Some (brk s)) = Inr \<lparr>key = Some k, val = v, type = t, next = None\<rparr>"
    by (simp add: payload_at_def s1_def)
  have tr: "tree s1 = tree s"
    by (simp add: s1_def)
  have "brk s \<notin> fst ` set es"
    using degenerate_commonD(5) [OF deg, of "brk s"] by auto
  then have "a \<noteq> brk s" if "a \<in> fst ` set es" for a
    using that by blast
  then have "\<And>a. a \<in> fst ` set es \<Longrightarrow> payload_mem s1 a = payload_mem s a"
    by (simp add: s1_def)
  then have fc: "find_container s1 (key_compare (opts (tree s))) (root (tree s)) (Some k) 0 = Inr 0"
    by (intro find_container_root [OF deg]) (simp_all add: s1_def)
  from insert_step [OF deg fuel, where k = k and v = v and t = t and hdr = hdr]
  obtain c s' where s': "container_insert fuel hdr s1 (root (tree s)) 0 (brk s) = Inr (c, s')"
    and rest: "degenerate s' es'" "opts (tree s') = opts (tree s)"
     "key_destructor (opts (tree s)) \<longrightarrow>
        length (key_destructed s') + length es' = Suc (length (key_destructed s) + length es)"
     "val_destructor (opts (tree s)) \<longrightarrow>
        length (val_destructed s') + nvals es' = length (val_destructed s) + nvals es + has_val v"
     "\<forall>a pl. scan (key_compare (opts (tree s))) k es None = (Some a, True) \<and>
        payload_mem s a = Some pl \<longrightarrow>
        payload_mem s' a = Some (pl\<lparr>val := v, type := t\<rparr>) \<and> payload_mem s' (brk s) = None"
    unfolding s1_def es'_def by blast
  have "(let (new_payload, s) = payload_create s (Some k) v t in
      bind (payload_at s (Some new_payload)) (\<lambda>np.
      bind (find_container s (key_compare (opts (tree s))) (root (tree s)) (key np) 0) (\<lambda>idx.
      bind (container_insert fuel hdr s (root (tree s)) idx new_payload) (\<lambda>(target, s).
        Inr (BF_OK hdr, s))))) = Inr (BF_OK hdr, s')"
    by (simp add: pc pa tr fc s')
  with rest show ?thesis
    by blast
qed

lemma scan_lookup:
  "chain m p es \<Longrightarrow>
   (case scan cmp k es prev of
      (r, True) \<Rightarrow> (\<exists>a pl. r = Some a \<and> m a = Some pl \<and>
         lookup cmp k es = Some (type pl, val pl))
    | (r, False) \<Rightarrow> lookup cmp k es = None)"
proof (induction es arbitrary: p prev)
  case Nil
  show ?case by simp
next
  case (Cons e es)
  obtain a ke te ve where e: "e = (a, ke, te, ve)"
    by (cases e)
  from Cons.prems e obtain pl where pl: "p = Some a" "m a = Some pl" "key pl = Some ke"
      "val pl = ve" "type pl = te" "chain m (next pl) es"
    by (auto split: option.splits)
  show ?case
    using Cons.IH [OF pl(6), of "Some a"] pl unfolding e
    by (auto split: prod.splits bool.splits)
qed

lemma get_step:
  assumes deg: "degenerate s es" and fuel: "length es < fuel"
  shows "bftree_get fuel s k = Inr (result_of (lookup (key_compare (opts (tree s))) k es))"
proof -
  from fuel obtain f where f: "fuel = Suc f" "length es \<le> Suc f"
    by (cases fuel) auto
  have fc: "find_container s (key_compare (opts (tree s))) (root (tree s)) (Some k) 0 = Inr 0"
    by (rule find_container_root [OF deg]) simp_all
  show ?thesis
  proof (cases "es = []")
    case True
    with deg obtain nd where "node_mem s (root (tree s)) = Some nd" "container_size nd = 0"
      by (auto elim: degenerate_emptyD)
    then show ?thesis
      by (simp add: bftree_get_def fc f(1) node_at_def True)
  next
    case False
    with deg obtain nd c cells p where nd: "node_mem s (root (tree s)) = Some nd"
        "container_size nd = 1" "containers nd = Some c # cells"
        "container_mem s c =
           Some \<lparr>payload_first = p, payload_size = of_nat (length es), child = None\<rparr>"
        "chain (payload_mem s) p es"
      by (rule degenerate_nonemptyD)
    obtain r b where sc: "scan (key_compare (opts (tree s))) k es None = (r, b)"
      by (cases "scan (key_compare (opts (tree s))) k es None")
    note gp = get_payload_loop_scan [OF nd(5) f(2), of "key_compare (opts (tree s))" k None,
        unfolded sc]
    note sl = scan_lookup [OF nd(5), of "key_compare (opts (tree s))" k None, unfolded sc,
        simplified]
    show ?thesis
    proof (cases b)
      case True
      with sl obtain a pl where a: "r = Some a" "payload_mem s a = Some pl"
          "lookup (key_compare (opts (tree s))) k es = Some (type pl, val pl)"
        by auto
      show ?thesis
        using nd(1-4) gp True a
        by (cases "type pl")
          (simp_all add: bftree_get_def fc f(1) node_at_def array_read_def container_at_def
            get_payload_def payload_at_def)
    next
      case False
      with sl have "lookup (key_compare (opts (tree s))) k es = None"
        by simp
      then show ?thesis
        using nd(1-4) gp False
        by (simp add: bftree_get_def fc f(1) node_at_def array_read_def container_at_def
            get_payload_def)
    qed
  qed
qed

lemma ins_keys:
  "x \<in> set (ins cmp (n, k, t, v) es) \<Longrightarrow>
   fst (snd x) = k \<or> (\<exists>y \<in> set es. fst (snd y) = fst (snd x))"
  by (induction es) (auto split: if_splits)

lemma sorted_ins:
  assumes "total_order cmp"
  shows "keys_sorted cmp es \<Longrightarrow> keys_sorted cmp (ins cmp (n, k, t, v) es)"
proof (induction es)
  case Nil
  show ?case by (simp add: keys_sorted_def)
next
  case (Cons e es)
  obtain a ke te ve where e: "e = (a, ke, te, ve)"
    by (cases e)
  from assms have eq: "\<And>x y. cmp x y = 0 \<longleftrightarrow> x = y"
    and asym: "\<And>x y. cmp x y < 0 \<longleftrightarrow> cmp y x > 0"
    and tr: "\<And>x y z. cmp x y < 0 \<Longrightarrow> cmp y z < 0 \<Longrightarrow> cmp x z < 0"
    unfolding total_order_def by blast+
  from Cons.prems e have hd: "\<forall>y \<in> set es. cmp ke (fst (snd y)) < 0"
    and tl: "keys_sorted cmp es"
    by (simp_all add: keys_sorted_def)
  consider (lt) "cmp k ke < 0" | (eq) "cmp k ke = 0" | (gt) "cmp k ke > 0"
    by linarith
  then show ?case
  proof cases
    case lt
    with hd tr [of k ke] have "\<forall>y \<in> set es. cmp k (fst (snd y)) < 0"
      by blast
    with lt Cons.prems show ?thesis
      unfolding e by (simp add: keys_sorted_def)
  next
    case eq
    with Cons.prems show ?thesis
      unfolding e by (simp add: keys_sorted_def)
  next
    case gt
    then have kk: "cmp ke k < 0"
      by (simp add: asym)
    have "\<forall>y \<in> set (ins cmp (n, k, t, v) es). cmp ke (fst (snd y)) < 0"
    proof
      fix y assume "y \<in> set (ins cmp (n, k, t, v) es)"
      then have "fst (snd y) = k \<or> (\<exists>z \<in> set es. fst (snd z) = fst (snd y))"
        by (rule ins_keys)
      with kk hd show "cmp ke (fst (snd y)) < 0"
        by auto
    qed
    with gt Cons.IH [OF tl] show ?thesis
      unfolding e by (simp add: keys_sorted_def)
  qed
qed

lemma scan_sorted_hit:
  assumes "total_order cmp"
  shows "keys_sorted cmp es \<Longrightarrow> (a, k, t, v) \<in> set es \<Longrightarrow>
    scan cmp k es prev = (Some a, True)"
proof (induction es arbitrary: prev)
  case Nil
  then show ?case by simp
next
  case (Cons e es)
  obtain a' ke te ve where e: "e = (a', ke, te, ve)"
    by (cases e)
  from assms have eq: "\<And>x y. cmp x y = 0 \<longleftrightarrow> x = y"
    and asym: "\<And>x y. cmp x y < 0 \<longleftrightarrow> cmp y x > 0"
    unfolding total_order_def by blast+
  from Cons.prems(1) e have hd: "\<forall>y \<in> set es. cmp ke (fst (snd y)) < 0"
    and tl: "keys_sorted cmp es"
    by (simp_all add: keys_sorted_def)
  show ?case
  proof (cases "(a, k, t, v) = e")
    case True
    have "cmp ke ke = 0"
      by (simp add: eq)
    with True show ?thesis
      unfolding e by simp
  next
    case False
    with Cons.prems(2) have m: "(a, k, t, v) \<in> set es"
      by simp
    with hd have "cmp ke k < 0"
      by force
    then have "cmp k ke > 0"
      by (simp add: asym)
    with Cons.IH [OF tl m] show ?thesis
      unfolding e by simp
  qed
qed

lemma create_degenerate:
  assumes "BFTREE_DEFAULT_CONTAINER hdr \<noteq> 0"
  shows "degenerate (bftree_create hdr options) []"
    and "opts (tree (bftree_create hdr options)) = options"
proof -
  have "unat (BFTREE_DEFAULT_CONTAINER hdr) \<noteq> 0"
    using assms by (simp add: unat_eq_zero)
  then show "degenerate (bftree_create hdr options) []"
    using assms
    by (simp add: degenerate_def bftree_create_def node_create_def Let_def)
  show "opts (tree (bftree_create hdr options)) = options"
    by (simp add: bftree_create_def node_create_def Let_def)
qed

lemma length_ins: "length (ins cmp e es) \<le> Suc (length es)"
proof (induction es)
  case Nil
  show ?case by simp
next
  case (Cons x es)
  obtain n k t v where e: "e = (n, k, t, v)"
    by (cases e)
  obtain a ke te ve where x: "x = (a, ke, te, ve)"
    by (cases x)
  from Cons show ?case
    unfolding e x by simp
qed

lemma length_effect: "length (effect cmp n x es) \<le> Suc (length es)"
  by (cases x) (simp_all add: length_ins)

lemma apply_operation_degenerate:
  assumes deg: "degenerate s es" and fuel: "length es < fuel"
  shows "\<exists>s'. apply_operation fuel hdr s x = Inr s' \<and>
     degenerate s' (effect (key_compare (opts (tree s))) (brk s) x es) \<and>
     opts (tree s') = opts (tree s)"
proof (cases x)
  case (PutOp k v)
  from insert_op_step [OF deg fuel, where k = k and v = v and t = Put and hdr = hdr]
  show ?thesis
    unfolding PutOp by (auto simp: bftree_put_def)
next
  case (DelOp k)
  from insert_op_step [OF deg fuel, where k = k and v = None and t = Del and hdr = hdr]
  show ?thesis
    unfolding DelOp by (auto simp: bftree_del_def)
next
  case (GetOp k)
  from get_step [OF deg fuel] deg show ?thesis
    unfolding GetOp by simp
qed

lemma run_invariant:
  assumes "degenerate s es" "length es + length xs < fuel" "P es"
    and "\<And>es n x. P es \<Longrightarrow> x \<in> set xs \<Longrightarrow> P (effect (key_compare (opts (tree s))) n x es)"
  shows "\<exists>s' es'. run fuel hdr s xs = Inr s' \<and> degenerate s' es' \<and>
     opts (tree s') = opts (tree s) \<and> length es' \<le> length es + length xs \<and> P es'"
  using assms
proof (induction xs arbitrary: s es)
  case Nil
  then show ?case by auto
next
  case (Cons x xs)
  let ?es1 = "effect (key_compare (opts (tree s))) (brk s) x es"
  from Cons.prems(2) have f: "length es < fuel"
    by simp
  from apply_operation_degenerate [OF Cons.prems(1) f, of hdr x]
  obtain s1 where s1: "apply_operation fuel hdr s x = Inr s1" "degenerate s1 ?es1"
      "opts (tree s1) = opts (tree s)"
    by blast
  have l1: "length ?es1 \<le> Suc (length es)"
    by (rule length_effect)
  with Cons.prems(2) have f1: "length ?es1 + length xs < fuel"
    by simp
  have p1: "P ?es1"
    using Cons.prems(3,4) by simp
  have st: "\<And>es n y. P es \<Longrightarrow> y \<in> set xs \<Longrightarrow> P (effect (key_compare (opts (tree s1))) n y es)"
    using Cons.prems(4) by (simp add: s1(3))
  from Cons.IH [OF s1(2) f1 p1 st]
  obtain s' es' where "run fuel hdr s1 xs = Inr s'" "degenerate s' es'"
    "opts (tree s') = opts (tree s1)" "length es' \<le> length ?es1 + length xs" "P es'"
    by blast
  with s1 l1 show ?case
    by (intro exI [of _ s'] exI [of _ es']) simp
qed

lemma run_append:
  "run fuel hdr s (xs @ ys) = bind (run fuel hdr s xs) (\<lambda>s. run fuel hdr s ys)"
  by (induction xs arbitrary: s) (auto simp: bind_def split: sum.splits)

lemma strcmp_eq: "strcmp a b = 0 \<longleftrightarrow> a = b"
  by (induction a b rule: strcmp.induct) auto

lemma strcmp_asym: "strcmp a b < 0 \<longleftrightarrow> strcmp b a > 0"
  by (induction a b rule: strcmp.induct) (auto simp: strcmp_eq)

lemma strcmp_trans: "strcmp a b < 0 \<Longrightarrow> strcmp b c < 0 \<Longrightarrow> strcmp a c < 0"
proof (induction a b arbitrary: c rule: strcmp.induct)
  case 1
  then show ?case by simp
next
  case (2 y ys)
  then show ?case by (cases c) (auto split: if_splits)
next
  case (3 x xs)
  then show ?case by simp
next
  case (4 x xs y ys)
  then show ?case
    by (cases c) (auto split: if_splits)
qed

lemma total_order_compare: "total_order compare"
  unfolding total_order_def compare_def
  using strcmp_eq strcmp_asym strcmp_trans by blast

lemma run_sorted:
  fixes xs :: "('k, 'v) operation list"
  assumes "total_order (key_compare options)" and "BFTREE_DEFAULT_CONTAINER hdr \<noteq> 0"
    and "length xs < fuel"
  shows "\<exists>s es. run fuel hdr (bftree_create hdr options) xs = Inr s \<and> degenerate s es \<and>
     opts (tree s) = options \<and> length es \<le> length xs \<and> keys_sorted (key_compare options) es"
proof -
  let ?s0 = "bftree_create hdr options :: ('k, 'v) state"
  have d0: "degenerate ?s0 []" and o0: "opts (tree ?s0) = options"
    using create_degenerate [OF assms(2)] by auto
  have f0: "length ([] :: ('k, 'v) entry list) + length xs < fuel"
    using assms(3) by simp
  have p0: "keys_sorted (key_compare options) ([] :: ('k, 'v) entry list)"
    by (simp add: keys_sorted_def)
  have st: "keys_sorted (key_compare options) (effect (key_compare (opts (tree ?s0))) n x es)"
    if "keys_sorted (key_compare options) es" for es :: "('k, 'v) entry list" and n x
    using that sorted_ins [OF assms(1)] by (cases x) (simp_all add: o0)
  from run_invariant [OF d0 f0, where P = "keys_sorted (key_compare options)" and hdr = hdr,
      OF p0 st]
  show ?thesis
    using o0 by auto
qed

lemma live_entry:
  assumes "degenerate s es" "payload_mem s a = Some pl" "key pl = Some k"
  shows "\<exists>t v. (a, k, t, v) \<in> set es"
proof -
  note c = degenerate_commonD [OF assms(1)]
  from c(6) [of a] assms(2) have "a \<in> fst ` set es"
    by simp
  then obtain k' t v where m: "(a, k', t, v) \<in> set es"
    by force
  then have ne: "es \<noteq> []"
    by auto
  from assms(1) ne obtain p where "chain (payload_mem s) p es"
    by (auto elim: degenerate_nonemptyD)
  from chain_mem [OF this c(4) m] assms(2,3) have "k' = k"
    by auto
  with m show ?thesis
    by blast
qed

lemma degenerate_reachable:
  assumes "degenerate s es" "reachable s node"
  shows "node = root (tree s)"
  using assms(2)
proof (induction rule: reachable.induct)
  case reachable_root
  show ?case by simp
next
  case (reachable_child node nd i c ct ch)
  show ?case
  proof (cases "es = []")
    case True
    with assms(1) obtain nd' where "node_mem s (root (tree s)) = Some nd'" "container_size nd' = 0"
      by (auto elim: degenerate_emptyD)
    with reachable_child show ?thesis
      by simp
  next
    case False
    with assms(1) obtain nd' c' cells p where nd: "node_mem s (root (tree s)) = Some nd'"
        "container_size nd' = 1" "containers nd' = Some c' # cells"
        "container_mem s c' =
           Some \<lparr>payload_first = p, payload_size = of_nat (length es), child = None\<rparr>"
      by (rule degenerate_nonemptyD)
    from reachable_child nd have "i = 0"
      by (simp add: word_less_1)
    with reachable_child nd show ?thesis
      by (simp add: array_read_def)
  qed
qed

lemma keys_sorted_map:
  "keys_sorted cmp es \<Longrightarrow> strictly_increasing cmp (map (fst \<circ> snd) es)"
  by (simp add: keys_sorted_def strictly_increasing_def sorted_wrt_map)

lemma degenerate_node_invariants:
  assumes "degenerate s es" "keys_sorted cmp es"
  shows "node_invariants cmp s (root (tree s))"
proof (cases "es = []")
  case True
  with assms(1) obtain nd where "node_mem s (root (tree s)) = Some nd" "container_size nd = 0"
    by (auto elim: degenerate_emptyD)
  then show ?thesis
    unfolding node_invariants_def
    by (intro exI [of _ nd] exI [of _ "[]"]) (simp add: strictly_increasing_def)
next
  case False
  with assms(1) obtain nd c cells p where nd: "node_mem s (root (tree s)) = Some nd"
      "container_size nd = 1" "containers nd = Some c # cells"
      "container_mem s c =
         Some \<lparr>payload_first = p, payload_size = of_nat (length es), child = None\<rparr>"
      "chain (payload_mem s) p es"
    by (rule degenerate_nonemptyD)
  have ck: "container_keys s nd 0 (map (fst \<circ> snd) es)"
    unfolding container_keys_def using nd
    by (intro exI [of _ c] exI [of _ "\<lparr>payload_first = p, payload_size = of_nat (length es),
          child = None\<rparr>"] exI [of _ es]) (simp add: array_read_def)
  show ?thesis
    unfolding node_invariants_def
    using nd(1,2) ck False keys_sorted_map [OF assms(2)]
    by (intro exI [of _ nd] exI [of _ "[map (fst \<circ> snd) es]"])
      (simp add: strictly_increasing_def)
qed

lemma validate_chain_sorted:
  assumes "total_order cmp"
  shows "chain (payload_mem s) (Some a) ((a, k, t, v) # es) \<Longrightarrow>
    keys_sorted cmp ((a, k, t, v) # es) \<Longrightarrow> length es \<le> fuel \<Longrightarrow>
    payload_mem s a = Some pl \<Longrightarrow>
    validate_chain fuel s cmp (Some a) (next pl) = Inr ()"
proof (induction es arbitrary: a k t v pl fuel)
  case Nil
  then show ?case
    by simp
next
  case (Cons e es)
  obtain a' k' t' v' where e: "e = (a', k', t', v')"
    by (cases e)
  from Cons.prems(1,4) e obtain pl' where pl: "key pl = Some k" "next pl = Some a'"
      "payload_mem s a' = Some pl'" "key pl' = Some k'"
      "chain (payload_mem s) (Some a') ((a', k', t', v') # es)"
    by (auto split: option.splits)
  from Cons.prems(2) e have lt: "cmp k k' < 0" and srt: "keys_sorted cmp ((a', k', t', v') # es)"
    by (simp_all add: keys_sorted_def)
  from Cons.prems(3) obtain f where f: "fuel = Suc f" "length es \<le> f"
    by (cases fuel) auto
  from Cons.IH [OF pl(5) srt f(2) pl(3)] pl lt Cons.prems(4) show ?case
    unfolding f(1) by (simp add: payload_at_def compare_keys_def)
qed

lemma degenerate_validate:
  assumes "total_order cmp" "degenerate s es" "keys_sorted cmp es" "length es \<le> fuel"
  shows "validate_containers fuel s (root (tree s)) cmp = Inr ()"
proof (cases "es = []")
  case True
  with assms(2) obtain nd where "node_mem s (root (tree s)) = Some nd" "container_size nd = 0"
    by (auto elim: degenerate_emptyD)
  then show ?thesis
    by (simp add: validate_containers_def node_at_def validate_containers_loop.simps [of _ _ _ _ 0])
next
  case False
  with assms(2) obtain nd c cells p where nd: "node_mem s (root (tree s)) = Some nd"
      "container_size nd = 1" "containers nd = Some c # cells"
      "container_mem s c =
         Some \<lparr>payload_first = p, payload_size = of_nat (length es), child = None\<rparr>"
      "chain (payload_mem s) p es"
    by (rule degenerate_nonemptyD)
  from False obtain a k t v es' where es: "es = (a, k, t, v) # es'"
    by (cases es) auto
  from nd(5) es obtain pl where pl: "p = Some a" "payload_mem s a = Some pl"
    by (auto split: option.splits)
  have "validate_chain fuel s cmp (Some a) (next pl) = Inr ()"
    using nd(5) assms(3,4) pl unfolding es
    by (intro validate_chain_sorted [OF assms(1)]) auto
  with nd pl show ?thesis
    by (simp add: validate_containers_def node_at_def
        validate_containers_loop.simps [of _ _ _ _ 0] validate_containers_loop.simps [of _ _ _ _ 1]
        array_read_int_def array_read_def increment_def container_at_def payload_at_def)
qed

lemmas eval_defs = hdr0_def opts0_def compare_def bftree_create_def node_create_def bftree_put_def
  bftree_del_def bftree_get_def payload_create_def find_container_def node_at_def
  container_insert_body_def container_create_def insert_after_container_def array_write_def
  array_read_def container_at_def payload_at_def get_payload_def payload_upd_def
  container_upd_def payload_replace_def payload_free_def compare_keys_def non_null_def
  Let_def find_container_loop.simps [of _ _ _ _ 0] find_container_loop.simps [of _ _ _ _ 1]
  array_read_int_def increment_def decrement_def


lemma first_above_ge: "i \<le> first_above cmp k ks i"
proof (induction cmp k ks i rule: first_above.induct)
  case (1 cmp k ks i)
  then show ?case
    by (cases "i < length ks \<and> \<not> cmp k (ks ! i) < 0")
      (auto simp: first_above.simps [of _ _ _ i] dest: Suc_leD)
qed








lemma run_put_get:
  fixes k :: 'k and v :: "'v option" and before after :: "('k, 'v) operation list"
  assumes "total_order (key_compare options)" and "BFTREE_DEFAULT_CONTAINER hdr \<noteq> 0"
    and "length before + length after + 1 < fuel"
    and "\<forall>x \<in> set after. x \<noteq> DelOp k \<and> (\<forall>w. x \<noteq> PutOp k w)"
  shows "\<exists>s es. run fuel hdr (bftree_create hdr options) (before @ PutOp k v # after) = Inr s \<and>
     degenerate s es \<and> bftree_get fuel s k = Inr v"
proof -
  let ?cmp = "key_compare options"
  let ?s0 = "bftree_create hdr options :: ('k, 'v) state"
  from assms(1) have eq: "\<And>x y. ?cmp x y = 0 \<longleftrightarrow> x = y"
    unfolding total_order_def by blast
  have d0: "degenerate ?s0 []" and o0: "opts (tree ?s0) = options"
    using create_degenerate [OF assms(2)] by auto
  have "length ([] :: ('k, 'v) entry list) + length before < fuel"
    using assms(3) by simp
  from run_invariant [OF d0 this, where P = "\<lambda>_. True" and hdr = hdr]
  obtain s1 es1 where s1: "run fuel hdr ?s0 before = Inr s1" "degenerate s1 es1"
      "opts (tree s1) = options" "length es1 \<le> length before"
    using o0 by auto
  have f1: "length es1 < fuel"
    using s1(4) assms(3) by simp
  from apply_operation_degenerate [OF s1(2) f1, of hdr "PutOp k v"]
  obtain s2 where s2: "apply_operation fuel hdr s1 (PutOp k v) = Inr s2"
      "degenerate s2 (ins ?cmp (brk s1, k, Put, v) es1)" "opts (tree s2) = options"
    using s1(3) by auto
  let ?es2 = "ins ?cmp (brk s1, k, Put, v) es1"
  have l2: "length ?es2 \<le> Suc (length es1)"
    by (rule length_ins)
  have f2: "length ?es2 + length after < fuel"
    using l2 s1(4) assms(3) by simp
  have p2: "lookup ?cmp k ?es2 = Some (Put, v)"
    by (rule lookup_ins_same) (simp add: eq)
  have st: "lookup ?cmp k (effect (key_compare (opts (tree s2))) n x es) = Some (Put, v)"
    if "lookup ?cmp k es = Some (Put, v)" "x \<in> set after" for es :: "('k, 'v) entry list" and n x
  proof (cases x)
    case (PutOp k' w)
    with that(2) assms(4) have "k \<noteq> k'"
      by auto
    with that(1) show ?thesis
      unfolding PutOp by (simp add: s2(3) lookup_ins_other [OF assms(1)])
  next
    case (DelOp k')
    with that(2) assms(4) have "k \<noteq> k'"
      by auto
    with that(1) show ?thesis
      unfolding DelOp by (simp add: s2(3) lookup_ins_other [OF assms(1)])
  next
    case (GetOp k')
    with that(1) show ?thesis
      by simp
  qed
  from run_invariant [OF s2(2) f2, where P = "\<lambda>es. lookup ?cmp k es = Some (Put, v)"
      and hdr = hdr, OF p2 st]
  obtain s3 es3 where s3: "run fuel hdr s2 after = Inr s3" "degenerate s3 es3"
      "opts (tree s3) = options" "length es3 \<le> length ?es2 + length after"
      "lookup ?cmp k es3 = Some (Put, v)"
    using s2(3) by auto
  have f3: "length es3 < fuel"
    using s3(4) f2 by simp
  have "run fuel hdr ?s0 (before @ PutOp k v # after) = Inr s3"
    using s1(1) s2(1) s3(1) by (simp add: run_append)
  moreover have "bftree_get fuel s3 k = Inr v"
    using get_step [OF s3(2) f3, of k] s3(3,5) by simp
  ultimately show ?thesis
    using s3(2) by blast
qed


lemma payload_free_effect:
  assumes "payload_mem s a = Some pl" "key pl = Some k"
  shows "\<exists>s'. payload_free s a = Inr s' \<and> payload_mem s' = (payload_mem s)(a := None) \<and>
     container_mem s' = container_mem s \<and> node_mem s' = node_mem s \<and>
     opts (tree s') = opts (tree s) \<and> root (tree s') = root (tree s) \<and>
     length (key_destructed s') =
       length (key_destructed s) + (if key_destructor (opts (tree s)) then 1 else 0) \<and>
     length (val_destructed s') =
       length (val_destructed s) + (if val_destructor (opts (tree s)) then has_val (val pl) else 0)"
  using assms
  by (cases "val pl") (simp_all add: payload_free_def payload_at_def Let_def has_val_def)

lemma container_free_loop_effect:
  "chain (payload_mem s) p es \<Longrightarrow> distinct (map fst es) \<Longrightarrow> length es \<le> fuel \<Longrightarrow>
   \<exists>s'. container_free_loop fuel s p = Inr s' \<and>
     container_mem s' = container_mem s \<and> node_mem s' = node_mem s \<and>
     opts (tree s') = opts (tree s) \<and> root (tree s') = root (tree s) \<and>
     length (key_destructed s') =
       length (key_destructed s) + (if key_destructor (opts (tree s)) then length es else 0) \<and>
     length (val_destructed s') =
       length (val_destructed s) + (if val_destructor (opts (tree s)) then nvals es else 0)"
proof (induction es arbitrary: s p fuel)
  case Nil
  then show ?case
    by simp
next
  case (Cons e es)
  obtain a k t v where e: "e = (a, k, t, v)"
    by (cases e)
  from Cons.prems(1) e obtain pl where pl: "p = Some a" "payload_mem s a = Some pl"
      "key pl = Some k" "val pl = v" "chain (payload_mem s) (next pl) es"
    by (auto split: option.splits)
  from Cons.prems(2) e have d: "a \<notin> fst ` set es" "distinct (map fst es)"
    by auto
  from Cons.prems(3) obtain f where f: "fuel = Suc f" "length es \<le> f"
    by (cases fuel) auto
  from payload_free_effect [OF pl(2,3)]
  obtain s1 where s1: "payload_free s a = Inr s1" "payload_mem s1 = (payload_mem s)(a := None)"
      "container_mem s1 = container_mem s" "node_mem s1 = node_mem s"
      "opts (tree s1) = opts (tree s)" "root (tree s1) = root (tree s)"
      "length (key_destructed s1) =
        length (key_destructed s) + (if key_destructor (opts (tree s)) then 1 else 0)"
      "length (val_destructed s1) =
        length (val_destructed s) + (if val_destructor (opts (tree s)) then has_val (val pl) else 0)"
    by blast
  have "chain (payload_mem s1) (next pl) es"
    using pl(5) d(1) by (simp add: s1(2) chain_frame)
  from Cons.IH [OF this d(2) f(2)]
  obtain s' where s': "container_free_loop f s1 (next pl) = Inr s'"
      "container_mem s' = container_mem s1" "node_mem s' = node_mem s1"
      "opts (tree s') = opts (tree s1)" "root (tree s') = root (tree s1)"
      "length (key_destructed s') =
        length (key_destructed s1) + (if key_destructor (opts (tree s1)) then length es else 0)"
      "length (val_destructed s') =
        length (val_destructed s1) + (if val_destructor (opts (tree s1)) then nvals es else 0)"
    by blast
  have "container_free_loop fuel s p = Inr s'"
    using pl(1,2) s1(1) s'(1) by (simp add: f(1) payload_at_def)
  with s1 s' pl(4) show ?case
    unfolding e by (intro exI [of _ s']) simp
qed

lemma free_degenerate:
  assumes deg: "degenerate s es" and fuel: "length es + 2 < fuel"
  shows "\<exists>s'. bftree_free fuel s = Inr s' \<and>
     length (key_destructed s') =
       length (key_destructed s) + (if key_destructor (opts (tree s)) then length es else 0) \<and>
     length (val_destructed s') =
       length (val_destructed s) + (if val_destructor (opts (tree s)) then nvals es else 0)"
proof -
  from fuel obtain f where f: "fuel = Suc (Suc (Suc f))" "length es \<le> Suc (Suc (Suc f))"
    by (cases fuel; cases "fuel - 1"; cases "fuel - 2") auto
  show ?thesis
  proof (cases "es = []")
    case True
    with deg obtain nd where "node_mem s (root (tree s)) = Some nd" "container_size nd = 0"
      by (auto elim: degenerate_emptyD)
    then show ?thesis
      unfolding True f(1)
      by (simp add: bftree_free_def node_at_def node_free_def node_free_loop.simps [of _ _ _ 0])
  next
    case False
    with deg obtain nd c cells p where nd: "node_mem s (root (tree s)) = Some nd"
        "container_size nd = 1" "containers nd = Some c # cells"
        "container_mem s c =
           Some \<lparr>payload_first = p, payload_size = of_nat (length es), child = None\<rparr>"
        "chain (payload_mem s) p es"
      by (rule degenerate_nonemptyD)
    note cm = degenerate_commonD [OF deg]
    from container_free_loop_effect [OF nd(5) cm(4) f(2)]
    obtain s1 where s1: "container_free_loop (Suc (Suc (Suc f))) s p = Inr s1"
        "container_mem s1 = container_mem s" "node_mem s1 = node_mem s"
        "opts (tree s1) = opts (tree s)" "root (tree s1) = root (tree s)"
        "length (key_destructed s1) =
          length (key_destructed s) + (if key_destructor (opts (tree s)) then length es else 0)"
        "length (val_destructed s1) =
          length (val_destructed s) + (if val_destructor (opts (tree s)) then nvals es else 0)"
      by blast
    have ch: "bftree_free_children (Suc (Suc f)) s (root (tree s)) 0 = Inr s"
      using nd
      by (simp add: node_at_def array_read_int_def array_read_def increment_def container_at_def)
    have nf: "node_free (Suc (Suc (Suc f))) s (root (tree s)) =
        Inr (s1\<lparr>container_mem := (container_mem s1)(c := None),
                 node_mem := (node_mem s1)(root (tree s) := None)\<rparr>)"
      using nd s1(1,2,3)
      by (simp add: node_free_def node_at_def node_free_loop.simps [of _ _ _ 0]
          node_free_loop.simps [of _ _ _ 1] array_read_int_def array_read_def increment_def
          container_free_def container_at_def)
    show ?thesis
      unfolding f(1) bftree_free_def using ch nf s1(6,7)
      by simp
  qed
qed

lemma run_accounting:
  assumes "degenerate s es" "length es + length xs < fuel"
    "key_destructor (opts (tree s))" "val_destructor (opts (tree s))"
  shows "\<exists>s' es'. run fuel hdr s xs = Inr s' \<and> degenerate s' es' \<and>
     opts (tree s') = opts (tree s) \<and> length es' \<le> length es + length xs \<and>
     length (key_destructed s') + length es' =
       length (key_destructed s) + length es + put_calls xs + del_calls xs \<and>
     length (val_destructed s') + nvals es' =
       length (val_destructed s) + nvals es + put_calls_with_value xs"
  using assms
proof (induction xs arbitrary: s es)
  case Nil
  then show ?case
    by auto
next
  case (Cons x xs)
  from Cons.prems(2) have f: "length es < fuel"
    by simp
  have "\<exists>s1 es1. apply_operation fuel hdr s x = Inr s1 \<and> degenerate s1 es1 \<and>
      opts (tree s1) = opts (tree s) \<and> length es1 \<le> Suc (length es) \<and>
      length (key_destructed s1) + length es1 =
        length (key_destructed s) + length es + put_calls [x] + del_calls [x] \<and>
      length (val_destructed s1) + nvals es1 =
        length (val_destructed s) + nvals es + put_calls_with_value [x]"
  proof (cases x)
    case (PutOp k v)
    from insert_op_step [OF Cons.prems(1) f, where k = k and v = v and t = Put and hdr = hdr]
      Cons.prems(3,4)
    obtain s1 where "bftree_put fuel hdr s k v = Inr (BF_OK hdr, s1)"
      "degenerate s1 (ins (key_compare (opts (tree s))) (brk s, k, Put, v) es)"
      "opts (tree s1) = opts (tree s)"
      "length (key_destructed s1) + length (ins (key_compare (opts (tree s))) (brk s, k, Put, v) es)
        = Suc (length (key_destructed s) + length es)"
      "length (val_destructed s1) + nvals (ins (key_compare (opts (tree s))) (brk s, k, Put, v) es)
        = length (val_destructed s) + nvals es + has_val v"
      unfolding bftree_put_def by blast
    then show ?thesis
      unfolding PutOp
      using length_ins [of "key_compare (opts (tree s))" "(brk s, k, Put, v)" es]
      by (intro exI [of _ s1]
          exI [of _ "ins (key_compare (opts (tree s))) (brk s, k, Put, v) es"])
        (cases v; simp add: has_val_def)
  next
    case (DelOp k)
    from insert_op_step [OF Cons.prems(1) f, where k = k and v = None and t = Del and hdr = hdr]
      Cons.prems(3,4)
    obtain s1 where "bftree_del fuel hdr s k = Inr (BF_OK hdr, s1)"
      "degenerate s1 (ins (key_compare (opts (tree s))) (brk s, k, Del, None) es)"
      "opts (tree s1) = opts (tree s)"
      "length (key_destructed s1) + length (ins (key_compare (opts (tree s))) (brk s, k, Del, None) es)
        = Suc (length (key_destructed s) + length es)"
      "length (val_destructed s1) + nvals (ins (key_compare (opts (tree s))) (brk s, k, Del, None) es)
        = length (val_destructed s) + nvals es"
      unfolding bftree_del_def by (auto simp: has_val_def)
    then show ?thesis
      unfolding DelOp
      using length_ins [of "key_compare (opts (tree s))" "(brk s, k, Del, None)" es]
      by (intro exI [of _ s1]
          exI [of _ "ins (key_compare (opts (tree s))) (brk s, k, Del, None) es"])
        (simp add: has_val_def)
  next
    case (GetOp k)
    from get_step [OF Cons.prems(1) f, of k] Cons.prems(1) show ?thesis
      unfolding GetOp by (intro exI [of _ s] exI [of _ es]) simp
  qed
  then obtain s1 es1 where s1: "apply_operation fuel hdr s x = Inr s1" "degenerate s1 es1"
      "opts (tree s1) = opts (tree s)" "length es1 \<le> Suc (length es)"
      "length (key_destructed s1) + length es1 =
        length (key_destructed s) + length es + put_calls [x] + del_calls [x]"
      "length (val_destructed s1) + nvals es1 =
        length (val_destructed s) + nvals es + put_calls_with_value [x]"
    by blast
  have f1: "length es1 + length xs < fuel"
    using s1(4) Cons.prems(2) by simp
  from Cons.IH [OF s1(2) f1] Cons.prems(3,4) s1(3)
  obtain s' es' where s': "run fuel hdr s1 xs = Inr s'" "degenerate s' es'"
      "opts (tree s') = opts (tree s1)" "length es' \<le> length es1 + length xs"
      "length (key_destructed s') + length es' =
        length (key_destructed s1) + length es1 + put_calls xs + del_calls xs"
      "length (val_destructed s') + nvals es' =
        length (val_destructed s1) + nvals es1 + put_calls_with_value xs"
    by auto
  have c: "put_calls (x # xs) = put_calls [x] + put_calls xs"
    "del_calls (x # xs) = del_calls [x] + del_calls xs"
    "put_calls_with_value (x # xs) = put_calls_with_value [x] + put_calls_with_value xs"
    by (cases x; simp; cases "case x of PutOp k v \<Rightarrow> v | _ \<Rightarrow> None"; simp)+
  from s1 s' show ?case
    by (intro exI [of _ s'] exI [of _ es']) (simp add: c)
qed

lemma calls_append:
  "put_calls (xs @ ys) = put_calls xs + put_calls ys"
  "del_calls (xs @ ys) = del_calls xs + del_calls ys"
  "put_calls_with_value (xs @ ys) = put_calls_with_value xs + put_calls_with_value ys"
  by (induction xs rule: put_calls_with_value.induct) simp_all

lemma calls_puts:
  "put_calls (map (\<lambda>n. PutOp (f n) (Some (g n))) ns) = length ns"
  "del_calls (map (\<lambda>n. PutOp (f n) (Some (g n))) ns) = 0"
  "put_calls_with_value (map (\<lambda>n. PutOp (f n) (Some (g n))) ns) = length ns"
  by (induction ns) simp_all

lemma calls_dels:
  "put_calls (map (\<lambda>n. DelOp (f n)) ns) = 0"
  "del_calls (map (\<lambda>n. DelOp (f n)) ns) = length ns"
  "put_calls_with_value (map (\<lambda>n. DelOp (f n)) ns) = 0"
  by (induction ns) simp_all

lemma free_accounting:
  fixes xs :: "('k, 'v) operation list"
  assumes "BFTREE_DEFAULT_CONTAINER hdr \<noteq> 0"
    and "key_destructor options" and "val_destructor options"
    and "length xs + 2 < fuel"
  shows "\<exists>s s'. run fuel hdr (bftree_create hdr options) xs = Inr s \<and>
     bftree_free fuel s = Inr s' \<and>
     length (key_destructed s') = put_calls xs + del_calls xs \<and>
     length (val_destructed s') = put_calls_with_value xs"
proof -
  let ?s0 = "bftree_create hdr options :: ('k, 'v) state"
  have d0: "degenerate ?s0 []" and o0: "opts (tree ?s0) = options"
    using create_degenerate [OF assms(1)] by auto
  have l0: "key_destructed ?s0 = []" "val_destructed ?s0 = []"
    by (simp_all add: bftree_create_def node_create_def Let_def)
  have f0: "length ([] :: ('k, 'v) entry list) + length xs < fuel"
    using assms(4) by simp
  from run_accounting [OF d0 f0, where hdr = hdr] assms(2,3) o0 l0
  obtain s es where s: "run fuel hdr ?s0 xs = Inr s" "degenerate s es"
      "opts (tree s) = options" "length es \<le> length xs"
      "length (key_destructed s) + length es = put_calls xs + del_calls xs"
      "length (val_destructed s) + nvals es = put_calls_with_value xs"
    by (auto simp: nvals_def)
  have "length es + 2 < fuel"
    using s(4) assms(4) by simp
  from free_degenerate [OF s(2) this] s(3) assms(2,3)
  obtain s' where "bftree_free fuel s = Inr s'"
      "length (key_destructed s') = length (key_destructed s) + length es"
      "length (val_destructed s') = length (val_destructed s) + nvals es"
    by auto
  with s(1,5,6) show ?thesis
    by (intro exI [of _ s] exI [of _ s']) simp
qed

lemma hdr0_default: "BFTREE_DEFAULT_CONTAINER hdr0 \<noteq> 0"
  by (simp add: hdr0_def)

lemma opts0_destructors: "key_destructor opts0" "val_destructor opts0"
  by (simp_all add: opts0_def)

lemma length_scenario: "length s3_puts = 10000" "length s4_dels = 10000"
  by (simp_all only: s3_puts_def s4_dels_def length_map length_upt diff_zero)

lemma calls_scenario:
  "put_calls (s3_puts @ s4_dels) = 10000" "del_calls (s3_puts @ s4_dels) = 10000"
  "put_calls_with_value (s3_puts @ s4_dels) = 10000"
  by (simp_all only: calls_append s3_puts_def s4_dels_def calls_puts calls_dels length_upt
      diff_zero add_0_right add_0)









lemma lifetime_accounting:
  fixes xs :: "('k, 'v) operation list"
  assumes "BFTREE_DEFAULT_CONTAINER hdr \<noteq> 0"
    and "key_destructor options" and "val_destructor options"
    and "length xs + 2 < fuel"
  shows "lifetime_calls fuel hdr options xs =
     Inr (put_calls xs + del_calls xs, put_calls_with_value xs)"
  using free_accounting [OF assms] unfolding lifetime_calls_def by auto

section \<open>The claims\<close>

text \<open>
  Every theorem about a run takes three hypotheses where it needs them: the comparator is
  a total order, the default capacity of a node is not zero (the root's array could not
  hold its first container otherwise), and the fuel exceeds the number of operations
  (the chain of the root has at most one payload for each operation).
\<close>

text \<open>
  C1 (read-your-writes).  On a tree made by \<^verbatim>\<open>bftree_create\<close> with a total-order
  comparator, run any operations, then \<open>put(k, v)\<close>, then any operations none of which
  is a put or a del of \<open>k\<close>: the run succeeds and a \<open>get(k)\<close> on the final state
  returns \<open>v\<close>.
\<close>

theorem read_your_writes:
  fixes k :: 'k and v :: "'v option" and before after :: "('k, 'v) operation list"
  assumes "total_order (key_compare options)" and "BFTREE_DEFAULT_CONTAINER hdr \<noteq> 0"
    and "length before + length after + 1 < fuel"
    and "\<forall>x \<in> set after. x \<noteq> DelOp k \<and> (\<forall>w. x \<noteq> PutOp k w)"
  shows "\<exists>s. run fuel hdr (bftree_create hdr options) (before @ PutOp k v # after) = Inr s \<and>
     bftree_get fuel s k = Inr v"
  using run_put_get [OF assms] by blast

text \<open>C1 at a run of the harness comparator: put b, put a, del b, get a; then get a.\<close>

theorem read_your_writes_witness:
  "\<exists>s. run 5 hdr0 (bftree_create hdr0 opts0)
          ([PutOp ''b'' (Some ''1'')] @ PutOp ''a'' (Some ''2'') # [DelOp ''b'', GetOp ''a'']) = Inr s \<and>
       bftree_get 5 s ''a'' = Inr (Some ''2'')"
  using read_your_writes [of opts0 hdr0 "[PutOp ''b'' (Some ''1'')]" "[DelOp ''b'', GetOp ''a'']"
      5 "''a''" "Some ''2''"] total_order_compare
  by (simp add: opts0_def hdr0_def)

text \<open>
  C2 (last-writer-wins overwrite).  After any operations that end with \<open>put(k, v)\<close>, a
  \<open>get(k)\<close> returns \<open>v\<close>.  When that put finds a payload with key \<open>k\<close> in the state
  \<open>s0\<close> before it, the same payload object (same address, key and link) holds the value
  \<open>v\<close> and the kind Put afterwards, and the payload object allocated for the put is no
  longer allocated.
\<close>

theorem last_writer_wins:
  fixes k :: 'k and v :: "'v option" and xs :: "('k, 'v) operation list"
  assumes "total_order (key_compare options)" and "BFTREE_DEFAULT_CONTAINER hdr \<noteq> 0"
    and "length xs + 1 < fuel"
  shows "\<exists>s0 s1. run fuel hdr (bftree_create hdr options) xs = Inr s0 \<and>
     run fuel hdr (bftree_create hdr options) (xs @ [PutOp k v]) = Inr s1 \<and>
     bftree_put fuel hdr s0 k v = Inr (BF_OK hdr, s1) \<and>
     bftree_get fuel s1 k = Inr v \<and>
     (\<forall>a pl. payload_mem s0 a = Some pl \<and> key pl = Some k \<longrightarrow>
        payload_mem s1 a = Some (pl\<lparr>val := v, type := Put\<rparr>) \<and>
        payload_mem s1 (fst (payload_create s0 (Some k) v Put)) = None)"
proof -
  let ?cmp = "key_compare options"
  from assms(1) have rf: "?cmp k k = 0"
    unfolding total_order_def by blast
  have "length xs < fuel"
    using assms(3) by simp
  from run_sorted [OF assms(1,2) this]
  obtain s0 es where s0: "run fuel hdr (bftree_create hdr options) xs = Inr s0" "degenerate s0 es"
      "opts (tree s0) = options" "length es \<le> length xs" "keys_sorted ?cmp es"
    by blast
  have f0: "length es < fuel"
    using s0(4) assms(3) by simp
  let ?es1 = "ins ?cmp (brk s0, k, Put, v) es"
  from insert_op_step [OF s0(2) f0, where k = k and v = v and t = Put and hdr = hdr]
  obtain s1 where s1: "bftree_put fuel hdr s0 k v = Inr (BF_OK hdr, s1)" "degenerate s1 ?es1"
      "opts (tree s1) = options"
    and eff: "\<forall>a pl. scan ?cmp k es None = (Some a, True) \<and> payload_mem s0 a = Some pl \<longrightarrow>
        payload_mem s1 a = Some (pl\<lparr>val := v, type := Put\<rparr>) \<and> payload_mem s1 (brk s0) = None"
    unfolding bftree_put_def s0(3) by blast
  have f1: "length ?es1 < fuel"
    using length_ins [of ?cmp "(brk s0, k, Put, v)" es] s0(4) assms(3) by simp
  have g: "bftree_get fuel s1 k = Inr v"
    using get_step [OF s1(2) f1, of k] by (simp add: s1(3) lookup_ins_same [where cmp = "key_compare options" and k = k, OF rf])
  have r: "run fuel hdr (bftree_create hdr options) (xs @ [PutOp k v]) = Inr s1"
    using s0(1) s1(1) by (simp add: run_append)
  have new: "fst (payload_create s0 (Some k) v Put) = brk s0"
    by (simp add: payload_create_def Let_def)
  have "payload_mem s1 a = Some (pl\<lparr>val := v, type := Put\<rparr>) \<and>
        payload_mem s1 (fst (payload_create s0 (Some k) v Put)) = None"
    if "payload_mem s0 a = Some pl" "key pl = Some k" for a pl
  proof -
    from live_entry [OF s0(2) that] obtain t w where "(a, k, t, w) \<in> set es"
      by blast
    from scan_sorted_hit [OF assms(1) s0(5) this] have "scan ?cmp k es None = (Some a, True)" .
    with eff that(1) show ?thesis
      unfolding new by blast
  qed
  with s0(1) r s1(1) g show ?thesis
    by blast
qed

text \<open>C2 at a run of the harness comparator: put k a, then put k b.\<close>

theorem last_writer_wins_witness:
  "\<exists>s0 s1. run 4 hdr0 (bftree_create hdr0 opts0) [PutOp ''k'' (Some ''a'')] = Inr s0 \<and>
     run 4 hdr0 (bftree_create hdr0 opts0) ([PutOp ''k'' (Some ''a'')] @ [PutOp ''k'' (Some ''b'')])
       = Inr s1 \<and>
     bftree_put 4 hdr0 s0 ''k'' (Some ''b'') = Inr (BF_OK hdr0, s1) \<and>
     bftree_get 4 s1 ''k'' = Inr (Some ''b'')"
  using last_writer_wins [of opts0 hdr0 "[PutOp ''k'' (Some ''a'')]" 4 "''k''" "Some ''b''"]
    total_order_compare
  by (simp add: opts0_def hdr0_def) blast

text \<open>
  C3 (delete masking).  After any operations, then \<open>del(k)\<close>, then any operations none
  of which is a put of \<open>k\<close>, a \<open>get(k)\<close> returns null.  And in any state whatever, a
  lookup in a container whose chain holds an equal-key payload of kind Del returns null
  there: whether the container has a child, and what the child holds, plays no part.
\<close>

theorem delete_masking:
  fixes k :: 'k and before after :: "('k, 'v) operation list"
  assumes "total_order (key_compare options)" and "BFTREE_DEFAULT_CONTAINER hdr \<noteq> 0"
    and "length before + length after + 1 < fuel"
    and "\<forall>x \<in> set after. \<forall>w. x \<noteq> PutOp k w"
  shows "(\<exists>s. run fuel hdr (bftree_create hdr options) (before @ DelOp k # after) = Inr s \<and>
       bftree_get fuel s k = Inr None) \<and>
     (\<forall>(s' :: ('k, 'v) state) node idx nd c ct a pl.
        node_mem s' node = Some nd \<and> idx < container_size nd \<and>
        array_read (containers nd) idx = Inr c \<and> container_mem s' c = Some ct \<and>
        get_payload fuel s' (key_compare (opts (tree s'))) (payload_first ct) (Some k) =
          Inr (Some a, True) \<and>
        payload_mem s' a = Some pl \<and> type pl = Del \<longrightarrow>
        container_get fuel s' node idx (Some k) = Inr None)"
proof
  let ?cmp = "key_compare options"
  let ?s0 = "bftree_create hdr options :: ('k, 'v) state"
  let ?P = "\<lambda>es :: ('k, 'v) entry list. \<exists>w. lookup ?cmp k es = Some (Del, w)"
  from assms(1) have rf: "?cmp k k = 0"
    unfolding total_order_def by blast
  have "length before < fuel"
    using assms(3) by simp
  from run_sorted [OF assms(1,2) this]
  obtain s1 es1 where s1: "run fuel hdr ?s0 before = Inr s1" "degenerate s1 es1"
      "opts (tree s1) = options" "length es1 \<le> length before"
    by blast
  have f1: "length es1 < fuel"
    using s1(4) assms(3) by simp
  from apply_operation_degenerate [OF s1(2) f1, of hdr "DelOp k"]
  obtain s2 where s2: "apply_operation fuel hdr s1 (DelOp k) = Inr s2"
      "degenerate s2 (ins ?cmp (brk s1, k, Del, None) es1)" "opts (tree s2) = options"
    using s1(3) by auto
  let ?es2 = "ins ?cmp (brk s1, k, Del, None) es1"
  have f2: "length ?es2 + length after < fuel"
    using length_ins [of ?cmp "(brk s1, k, Del, None)" es1] s1(4) assms(3) by simp
  have p2: "?P ?es2"
    by (simp add: lookup_ins_same [where cmp = "key_compare options" and k = k, OF rf])
  have st: "?P (effect (key_compare (opts (tree s2))) n x es)"
    if "?P es" "x \<in> set after" for es :: "('k, 'v) entry list" and n x
  proof (cases x)
    case (PutOp k' w)
    with that(2) assms(4) have "k \<noteq> k'"
      by auto
    with that(1) show ?thesis
      unfolding PutOp by (simp add: s2(3) lookup_ins_other [OF assms(1)])
  next
    case (DelOp k')
    show ?thesis
    proof (cases "k' = k")
      case True
      then show ?thesis
        unfolding DelOp by (simp add: s2(3) lookup_ins_same [where cmp = "key_compare options" and k = k, OF rf])
    next
      case False
      with that(1) show ?thesis
        unfolding DelOp by (simp add: s2(3) lookup_ins_other [OF assms(1)])
    qed
  next
    case (GetOp k')
    with that(1) show ?thesis
      by simp
  qed
  from run_invariant [OF s2(2) f2, where P = ?P and hdr = hdr, OF p2 st]
  obtain s3 es3 w where s3: "run fuel hdr s2 after = Inr s3" "degenerate s3 es3"
      "opts (tree s3) = options" "length es3 \<le> length ?es2 + length after"
      "lookup ?cmp k es3 = Some (Del, w)"
    using s2(3) by auto
  have f3: "length es3 < fuel"
    using s3(4) f2 by simp
  have "run fuel hdr ?s0 (before @ DelOp k # after) = Inr s3"
    using s1(1) s2(1) s3(1) by (simp add: run_append)
  moreover have "bftree_get fuel s3 k = Inr None"
    using get_step [OF s3(2) f3, of k] s3(3,5) by simp
  ultimately show "\<exists>s. run fuel hdr ?s0 (before @ DelOp k # after) = Inr s \<and>
       bftree_get fuel s k = Inr None"
    by blast
next
  show "\<forall>(s' :: ('k, 'v) state) node idx nd c ct a pl.
        node_mem s' node = Some nd \<and> idx < container_size nd \<and>
        array_read (containers nd) idx = Inr c \<and> container_mem s' c = Some ct \<and>
        get_payload fuel s' (key_compare (opts (tree s'))) (payload_first ct) (Some k) =
          Inr (Some a, True) \<and>
        payload_mem s' a = Some pl \<and> type pl = Del \<longrightarrow>
        container_get fuel s' node idx (Some k) = Inr None"
  proof (intro allI impI, elim conjE)
    fix s' :: "('k, 'v) state" and node idx nd c ct a pl
    assume h: "node_mem s' node = Some nd" "idx < container_size nd"
      "array_read (containers nd) idx = Inr c" "container_mem s' c = Some ct"
      "get_payload fuel s' (key_compare (opts (tree s'))) (payload_first ct) (Some k) =
          Inr (Some a, True)"
      "payload_mem s' a = Some pl" "type pl = Del"
    from h(5) obtain f where f: "fuel = Suc f"
      by (cases fuel; cases "payload_first ct") (simp_all add: get_payload_def)
    from h show "container_get fuel s' node idx (Some k) = Inr None"
      unfolding f by (simp add: node_at_def container_at_def payload_at_def not_le [symmetric])
  qed
qed

text \<open>C3 at a run of the harness comparator: put b, put c, del b, get b; then get b.\<close>

theorem delete_masking_witness:
  "\<exists>s. run 5 hdr0 (bftree_create hdr0 opts0)
         ([PutOp ''b'' (Some ''1''), PutOp ''c'' (Some ''1'')] @ DelOp ''b'' # [GetOp ''b'']) = Inr s \<and>
       bftree_get 5 s ''b'' = Inr None"
  using delete_masking [of opts0 hdr0 "[PutOp ''b'' (Some ''1''), PutOp ''c'' (Some ''1'')]"
      "[GetOp ''b'']" 5 "''b''"] total_order_compare
  by (simp add: opts0_def hdr0_def)

text \<open>
  C4 (invariant T2), as the code has it.  \<^verbatim>\<open>payload_create\<close> does not touch the counters
  and no other function increments them; \<^verbatim>\<open>payload_free\<close> decrements them.  After one put
  on a new tree one Put payload is allocated and the Put counter is 0; after a second put
  of the same key one Put payload is allocated and the counter has wrapped to
  \<open>2^32 - 1\<close>.
\<close>

theorem counters_never_incremented:
  "(\<exists>s. run 1 hdr0 (bftree_create hdr0 opts0) [PutOp ''a'' (Some ''1'')] = Inr s \<and>
      live_payloads s Put = 1 \<and> put_payload_count (tree s) = 0) \<and>
   (\<exists>s. run (Suc (Suc 0)) hdr0 (bftree_create hdr0 opts0)
        [PutOp ''a'' (Some ''1''), PutOp ''a'' (Some ''2'')] = Inr s \<and>
      live_payloads s Put = 1 \<and> put_payload_count (tree s) = 4294967295)"
  by (simp add: eval_defs live_payloads_def)




text \<open>
  C6 (structural invariants N1, P1, P2).  After any sequence of operations from
  \<^verbatim>\<open>bftree_create\<close>, every node reachable from the root satisfies N1, P1 and P2
  (\<open>node_invariants\<close>), and \<^verbatim>\<open>validate_containers\<close> returns on it without a failed assertion
  and without reading a null pointer.
\<close>

theorem structural_invariants:
  fixes xs :: "('k, 'v) operation list"
  assumes "total_order (key_compare options)" and "BFTREE_DEFAULT_CONTAINER hdr \<noteq> 0"
    and "length xs < fuel"
  shows "\<exists>s. run fuel hdr (bftree_create hdr options) xs = Inr s \<and>
     (\<forall>node. reachable s node \<longrightarrow>
        node_invariants (key_compare options) s node \<and>
        validate_containers fuel s node (key_compare options) = Inr ())"
proof -
  from run_sorted [OF assms]
  obtain s es where s: "run fuel hdr (bftree_create hdr options) xs = Inr s" "degenerate s es"
      "length es \<le> length xs" "keys_sorted (key_compare options) es"
    by blast
  have le: "length es \<le> fuel"
    using s(3) assms(3) by simp
  have "node_invariants (key_compare options) s node \<and>
        validate_containers fuel s node (key_compare options) = Inr ()"
    if "reachable s node" for node
    using degenerate_reachable [OF s(2) that] degenerate_node_invariants [OF s(2,4)]
      degenerate_validate [OF assms(1) s(2,4) le]
    by simp
  with s(1) show ?thesis
    by blast
qed

text \<open>C6 at a run of the harness comparator, for the root.\<close>

theorem structural_invariants_witness:
  "\<exists>s. run 4 hdr0 (bftree_create hdr0 opts0)
       [PutOp ''b'' (Some ''1''), DelOp ''a'', PutOp ''c'' None] = Inr s \<and>
     reachable s (root (tree s)) \<and>
     node_invariants (key_compare opts0) s (root (tree s)) \<and>
     validate_containers 4 s (root (tree s)) (key_compare opts0) = Inr ()"
  using structural_invariants [of opts0 hdr0
      "[PutOp ''b'' (Some ''1''), DelOp ''a'', PutOp ''c'' None]" 4]
    total_order_compare reachable_root
  by (simp add: opts0_def hdr0_def) blast

text \<open>
  C7 (destructor accounting), as stated: the value destructor runs once for each put.
  A put of a null value is a put the value destructor never runs for: \<^verbatim>\<open>payload_free\<close>
  calls it only on a value that is not null.  The lifetime \<open>put(k, NULL)\<close> has one put,
  one key-destructor call and no value-destructor call.
\<close>

theorem null_value_not_destructed:
  "lifetime_calls 4 hdr0 opts0 [PutOp ''k'' (None :: string option)] = Inr (1, 0) \<and>
   put_calls [PutOp ''k'' (None :: string option)] = 1"
proof -
  have "length [PutOp ''k'' (None :: string option)] + 2 < 4"
    by simp
  from lifetime_accounting [OF hdr0_default opts0_destructors this]
  show ?thesis
    by simp
qed

text \<open>
  C7, amended.  With both destructors installed, over any sequence of operations from
  \<^verbatim>\<open>bftree_create\<close> followed by \<^verbatim>\<open>bftree_free\<close>: the operations and the free succeed, the key
  destructor has run once for each put and each del, and the value destructor has run once
  for each put of a value that is not null (\<open>put_calls_with_value\<close>).
\<close>

theorem destructor_accounting:
  fixes xs :: "('k, 'v) operation list"
  assumes "BFTREE_DEFAULT_CONTAINER hdr \<noteq> 0"
    and "key_destructor options" and "val_destructor options"
    and "length xs + 2 < fuel"
  shows "lifetime_calls fuel hdr options xs =
     Inr (put_calls xs + del_calls xs, put_calls_with_value xs)"
  using assms by (rule lifetime_accounting)

text \<open>
  C7, amended, at scenario S6: the 10,000 puts of S3 (each with a value), the 10,000 dels
  of S4, then \<^verbatim>\<open>bftree_free\<close>: 20000 key-destructor calls and 10000 value-destructor calls.
\<close>

theorem destructor_accounting_witness:
  "lifetime_calls 20003 hdr0 opts0 (s3_puts @ s4_dels) = Inr (20000, 10000)"
proof -
  have "length (s3_puts @ s4_dels) + 2 < 20003"
    by (simp add: length_scenario)
  from destructor_accounting [OF hdr0_default opts0_destructors this]
  show ?thesis
    by (simp add: calls_scenario)
qed



text \<open>
  C10 (degenerate shape).  After any sequence of put, del and get from
  \<^verbatim>\<open>bftree_create\<close>, the root holds at most one container, the allocated payloads are
  exactly the entries of that container's chain, sorted by key (\<open>degenerate\<close>,
  \<open>keys_sorted\<close>), the height is 1, \<^verbatim>\<open>is_migrated\<close> is 0, and no overflow handler
  (\<^verbatim>\<open>push_to_child\<close>, \<^verbatim>\<open>split_container\<close>, \<^verbatim>\<open>try_split_node\<close>, \<^verbatim>\<open>order_container_payload\<close>) was
  entered.
\<close>

theorem degenerate_shape:
  fixes xs :: "('k, 'v) operation list"
  assumes "total_order (key_compare options)" and "BFTREE_DEFAULT_CONTAINER hdr \<noteq> 0"
    and "length xs < fuel"
  shows "\<exists>s es nd. run fuel hdr (bftree_create hdr options) xs = Inr s \<and>
     node_mem s (root (tree s)) = Some nd \<and> container_size nd \<le> 1 \<and>
     degenerate s es \<and> keys_sorted (key_compare options) es \<and>
     height (tree s) = 1 \<and> is_migrated (tree s) = 0 \<and> entered s = []"
proof -
  from run_sorted [OF assms]
  obtain s es where s: "run fuel hdr (bftree_create hdr options) xs = Inr s" "degenerate s es"
      "keys_sorted (key_compare options) es"
    by blast
  note c = degenerate_commonD [OF s(2)]
  from s(2) obtain nd where "node_mem s (root (tree s)) = Some nd" "container_size nd \<le> 1"
    by (cases "es = []") (auto elim: degenerate_emptyD degenerate_nonemptyD)
  with s c(1,2,3) show ?thesis
    by blast
qed

text \<open>C10 at a run of the harness comparator.\<close>

theorem degenerate_shape_witness:
  "\<exists>s es nd. run 4 hdr0 (bftree_create hdr0 opts0)
       [PutOp ''b'' (Some ''1''), DelOp ''a'', GetOp ''b''] = Inr s \<and>
     node_mem s (root (tree s)) = Some nd \<and> container_size nd \<le> 1 \<and>
     degenerate s es \<and> keys_sorted (key_compare opts0) es \<and>
     height (tree s) = 1 \<and> is_migrated (tree s) = 0 \<and> entered s = []"
  using degenerate_shape [of opts0 hdr0 "[PutOp ''b'' (Some ''1''), DelOp ''a'', GetOp ''b'']" 4]
    total_order_compare
  by (simp add: opts0_def hdr0_def)

section \<open>A handler outside every run\<close>

text \<open>
  \<^verbatim>\<open>push_to_child\<close> is called from \<^verbatim>\<open>container_insert\<close> only, behind \<^verbatim>\<open>tree->is_migrated\<close>, and
  no run from \<^verbatim>\<open>bftree_create\<close> sets that flag.  \<open>push_state\<close> is a state with the flag set:
  the Del counter does not exceed the Put counter, and the container at address 3 has a
  child and the chain a (Put), b (Del).  There \<^verbatim>\<open>push_to_child\<close> pushes the Del payload b
  and reads \<^verbatim>\<open>skip_delete\<close>, which was never assigned.
\<close>

lemma push_to_child_at_push_state:
  "del_payload_count (tree push_state) \<le> put_payload_count (tree push_state) \<and>
   push_to_child (Suc (Suc 0)) hdr0 push_state 0 3 = Inl Uninitialised"
  by (simp add: push_state_def push_to_child_body_def push_to_child_loop_body_def
      enter_def container_at_def payload_at_def container_upd_def payload_upd_def non_null_def
      Let_def)

end
